theory Spec2Isabelle
  imports Main "HOL-Library.Monad_Syntax"
begin

section \<open>Python lists, strings and dictionaries\<close>

text \<open>
  The engine is Python. Its integers are unbounded (\<open>int\<close>), its board is a list of
  lists of two-character strings, and an index may be negative: \<open>xs[-1]\<close> is the last
  element. An index outside \<open>[-len, len)\<close> raises IndexError and a missing dictionary key
  raises KeyError. Every function that can raise returns an \<open>option\<close>; \<open>None\<close> stands for
  the raised exception (the state the exception leaves behind is not modelled).
\<close>

definition py_index :: "nat \<Rightarrow> int \<Rightarrow> nat option" where
  "py_index n i =
     (if 0 \<le> i \<and> i < int n then Some (nat i)
      else if - int n \<le> i \<and> i < 0 then Some (nat (int n + i))
      else None)"

definition getitem :: "'a list \<Rightarrow> int \<Rightarrow> 'a option" where
  "getitem xs i = do { k \<leftarrow> py_index (length xs) i; Some (xs ! k) }"

definition setitem :: "'a list \<Rightarrow> int \<Rightarrow> 'a \<Rightarrow> 'a list option" where
  "setitem xs i v = do { k \<leftarrow> py_index (length xs) i; Some (xs[k := v]) }"

text \<open>\<open>board[r][c]\<close> and \<open>board[r][c] = v\<close>. The rows of the board are eight distinct list
  objects, so the in-place update of a row is the update of that row inside the board.\<close>

definition board_get :: "string list list \<Rightarrow> int \<Rightarrow> int \<Rightarrow> string option" where
  "board_get b r c = do { row \<leftarrow> getitem b r; getitem row c }"

definition board_set :: "string list list \<Rightarrow> int \<Rightarrow> int \<Rightarrow> string \<Rightarrow> string list list option" where
  "board_set b r c v =
     do { row \<leftarrow> getitem b r; row' \<leftarrow> setitem row c v; setitem b r row' }"

text \<open>A dictionary built from key/value pairs in order: a later pair with the same key
  replaces the earlier one.\<close>

definition dict_of :: "('k \<times> 'v) list \<Rightarrow> 'k \<Rightarrow> 'v option" where
  "dict_of kvs = map_of (rev kvs)"

text \<open>A \<open>for\<close> loop without \<open>break\<close> whose body may raise.\<close>

fun for_each :: "('a \<Rightarrow> 's \<Rightarrow> 's option) \<Rightarrow> 'a list \<Rightarrow> 's \<Rightarrow> 's option" where
  "for_each body [] s = Some s"
| "for_each body (x # xs) s = do { s' \<leftarrow> body x s; for_each body xs s' }"

section \<open>The Move class\<close>

record Move =
  startRow :: int
  startCol :: int
  endRow :: int
  endCol :: int
  pieceMoved :: string
  pieceCaptured :: string
  moveID :: int

text \<open>\<open>Move.__init__(startSq, endSq, board)\<close>; the constructor's \<open>print\<close> is left out.\<close>

definition Move_init :: "int \<times> int \<Rightarrow> int \<times> int \<Rightarrow> string list list \<Rightarrow> Move option" where
  "Move_init startSq endSq b =
     do { pm \<leftarrow> board_get b (fst startSq) (snd startSq);
          pc \<leftarrow> board_get b (fst endSq) (snd endSq);
          Some \<lparr> startRow = fst startSq, startCol = snd startSq,
                 endRow = fst endSq, endCol = snd endSq,
                 pieceMoved = pm, pieceCaptured = pc,
                 moveID = fst endSq * 1000 + snd endSq * 100 + fst startSq * 10 + snd startSq \<rparr> }"

text \<open>\<open>Move.__eq__\<close> on two moves.\<close>

definition Move_eq :: "Move \<Rightarrow> Move \<Rightarrow> bool" where
  "Move_eq a b = (moveID a = moveID b)"

definition ranksToRows :: "(string \<times> int) list" where
  "ranksToRows = [(''1'', 7), (''2'', 6), (''3'', 5), (''4'', 4),
                  (''5'', 3), (''6'', 2), (''7'', 1), (''8'', 0)]"

definition rowsToRanks :: "int \<Rightarrow> string option" where
  "rowsToRanks = dict_of (map (\<lambda>(k, v). (v, k)) ranksToRows)"

definition filesToCols :: "(string \<times> int) list" where
  "filesToCols = [(''a'', 7), (''b'', 6), (''c'', 5), (''d'', 4),
                  (''e'', 3), (''f'', 2), (''g'', 1), (''h'', 0)]"

definition colsToFiles :: "int \<Rightarrow> string option" where
  "colsToFiles = dict_of (map (\<lambda>(k, v). (v, k)) filesToCols)"

definition getRankFile :: "int \<Rightarrow> int \<Rightarrow> string option" where
  "getRankFile r c = do { f \<leftarrow> colsToFiles c; rk \<leftarrow> rowsToRanks r; Some (f @ rk) }"

definition getChessNotation :: "Move \<Rightarrow> string option" where
  "getChessNotation m =
     do { a \<leftarrow> getRankFile (startRow m) (startCol m);
          b \<leftarrow> getRankFile (endRow m) (endCol m);
          Some (a @ b) }"

section \<open>The GameState class\<close>

type_synonym ray = "int \<times> int \<times> int \<times> int"

record GameState =
  board :: "string list list"
  whiteToMove :: bool
  moveLog :: "Move list"
  whiteKingLocation :: "int \<times> int"
  blackKingLocation :: "int \<times> int"
  inCheck :: bool
  checks :: "ray list"
  pins :: "ray list"

definition init_board :: "string list list" where
  "init_board =
     [[''bR'', ''bN'', ''bB'', ''bQ'', ''bK'', ''bB'', ''bN'', ''bR''],
      [''bp'', ''bp'', ''bp'', ''bp'', ''bp'', ''bp'', ''bp'', ''bp''],
      [''--'', ''--'', ''--'', ''--'', ''--'', ''--'', ''--'', ''--''],
      [''--'', ''--'', ''--'', ''--'', ''--'', ''--'', ''--'', ''--''],
      [''--'', ''--'', ''--'', ''--'', ''--'', ''--'', ''--'', ''--''],
      [''--'', ''--'', ''--'', ''--'', ''--'', ''--'', ''--'', ''--''],
      [''wp'', ''wp'', ''wp'', ''wp'', ''wp'', ''wp'', ''wp'', ''wp''],
      [''wR'', ''wN'', ''wB'', ''wQ'', ''wK'', ''wB'', ''wN'', ''wR'']]"

definition GameState_init :: GameState where
  "GameState_init =
     \<lparr> board = init_board, whiteToMove = True, moveLog = [],
       whiteKingLocation = (7, 4), blackKingLocation = (0, 4),
       inCheck = False, checks = [], pins = [] \<rparr>"

definition makeMove :: "GameState \<Rightarrow> Move \<Rightarrow> GameState option" where
  "makeMove s move =
     do { b1 \<leftarrow> board_set (board s) (startRow move) (startCol move) ''--'';
          b2 \<leftarrow> board_set b1 (endRow move) (endCol move) (pieceMoved move);
          let s1 = s \<lparr> board := b2, moveLog := moveLog s @ [move],
                       whiteToMove := \<not> whiteToMove s \<rparr>;
          Some (if pieceMoved move = ''wK''
                then s1 \<lparr> whiteKingLocation := (endRow move, endCol move) \<rparr>
                else if pieceMoved move = ''bK''
                then s1 \<lparr> blackKingLocation := (endRow move, endCol move) \<rparr>
                else s1) }"

definition undoMove :: "GameState \<Rightarrow> GameState option" where
  "undoMove s =
     (if length (moveLog s) \<noteq> 0 then
        do { let move = last (moveLog s);
             b1 \<leftarrow> board_set (board s) (startRow move) (startCol move) (pieceMoved move);
             b2 \<leftarrow> board_set b1 (endRow move) (endCol move) (pieceCaptured move);
             let s1 = s \<lparr> board := b2, moveLog := butlast (moveLog s),
                          whiteToMove := \<not> whiteToMove s \<rparr>;
             Some (if pieceMoved move = ''wK''
                   then s1 \<lparr> whiteKingLocation := (startRow move, startCol move) \<rparr>
                   else if pieceMoved move = ''bK''
                   then s1 \<lparr> blackKingLocation := (startRow move, startCol move) \<rparr>
                   else s1) }
      else Some s)"

subsection \<open>checksForPinsAndChecks\<close>

definition on_board :: "int \<Rightarrow> int \<Rightarrow> bool" where
  "on_board r c = (0 \<le> r \<and> r < 8 \<and> 0 \<le> c \<and> c < 8)"

definition directions :: "(int \<times> int) list" where
  "directions = [(-1, 0), (0, -1), (1, 0), (0, 1), (-1, -1), (-1, 1), (1, -1), (1, 1)]"

definition knightMoves :: "(int \<times> int) list" where
  "knightMoves = [(-2, -1), (-2, 1), (-1, -2), (-1, 2), (1, -2), (1, 2), (2, -1), (2, 1)]"

text \<open>The five-way test of lines 151 to 154: does an enemy piece of kind \<open>typePiece\<close>, met at
  step \<open>i\<close> of the ray with index \<open>j\<close>, attack the king.\<close>

definition attacks :: "int \<Rightarrow> int \<Rightarrow> char \<Rightarrow> char \<Rightarrow> bool" where
  "attacks j i enemyColor typePiece =
     ((0 \<le> j \<and> j \<le> 3 \<and> typePiece = CHR ''R'') \<or>
      (4 \<le> j \<and> j \<le> 7 \<and> typePiece = CHR ''B'') \<or>
      (i = 1 \<and> typePiece = CHR ''p'' \<and>
         ((enemyColor = CHR ''w'' \<and> 6 \<le> j \<and> j \<le> 7) \<or>
          (enemyColor = CHR ''b'' \<and> 4 \<le> j \<and> j \<le> 5))) \<or>
      typePiece = CHR ''Q'' \<or>
      (i = 1 \<and> typePiece = CHR ''K''))"

text \<open>
  The inner loop \<open>for i in range(1, 8)\<close> of one ray, lines 133 to 162. The remaining values
  of \<open>i\<close> are the list argument; \<open>possiblePin\<close> is \<open>None\<close> for the empty tuple. The triple is
  \<open>(inCheck, pins, checks)\<close>. A qualifying enemy piece behind a pin candidate falls through
  the \<open>if possiblePin == ()\<close> without an \<open>else\<close>: nothing is appended to \<open>pins\<close> and the
  loop goes on. The test \<open>endPiece != 'K'\<close> compares the whole two-character string.
\<close>

fun ray_loop :: "string list list \<Rightarrow> char \<Rightarrow> char \<Rightarrow> int \<Rightarrow> int \<Rightarrow> int \<Rightarrow> int \<times> int \<Rightarrow>
    int list \<Rightarrow> ray option \<Rightarrow> bool \<times> ray list \<times> ray list \<Rightarrow> (bool \<times> ray list \<times> ray list) option" where
  "ray_loop b enemyColor allyColor sr sc j d [] possiblePin acc = Some acc"
| "ray_loop b enemyColor allyColor sr sc j d (i # rest) possiblePin acc =
     (let er = sr + fst d * i; ec = sc + snd d * i in
      if on_board er ec then
        do { endPiece \<leftarrow> board_get b er ec;
             c0 \<leftarrow> getitem endPiece 0;
             if c0 = allyColor \<and> endPiece \<noteq> ''K'' then
               (if possiblePin = None
                then ray_loop b enemyColor allyColor sr sc j d rest (Some (er, ec, fst d, snd d)) acc
                else Some acc)
             else if c0 = enemyColor then
               do { typePiece \<leftarrow> getitem endPiece 1;
                    if attacks j i enemyColor typePiece then
                      (if possiblePin = None
                       then (case acc of (ic, ps, cs) \<Rightarrow>
                               Some (True, ps, cs @ [(er, ec, fst d, snd d)]))
                       else ray_loop b enemyColor allyColor sr sc j d rest possiblePin acc)
                    else Some acc }
             else ray_loop b enemyColor allyColor sr sc j d rest possiblePin acc }
      else Some acc)"

text \<open>The body of the knight loop, lines 166 to 173.\<close>

definition knight_check :: "string list list \<Rightarrow> char \<Rightarrow> int \<Rightarrow> int \<Rightarrow> int \<times> int \<Rightarrow>
    bool \<times> ray list \<times> ray list \<Rightarrow> (bool \<times> ray list \<times> ray list) option" where
  "knight_check b enemyColor sr sc m acc =
     (let er = sr + fst m; ec = sc + snd m in
      if on_board er ec then
        do { endPiece \<leftarrow> board_get b er ec;
             c0 \<leftarrow> getitem endPiece 0;
             if c0 = enemyColor then
               do { c1 \<leftarrow> getitem endPiece 1;
                    if c1 = CHR ''N''
                    then (case acc of (ic, ps, cs) \<Rightarrow> Some (True, ps, cs @ [(er, ec, fst m, snd m)]))
                    else Some acc }
             else Some acc }
      else Some acc)"

text \<open>The king whose safety is examined: the cached square of the side to move.\<close>

definition kingLocation :: "GameState \<Rightarrow> int \<times> int" where
  "kingLocation s = (if whiteToMove s then whiteKingLocation s else blackKingLocation s)"

definition enemyColor_of :: "GameState \<Rightarrow> char" where
  "enemyColor_of s = (if whiteToMove s then CHR ''b'' else CHR ''w'')"

definition allyColor_of :: "GameState \<Rightarrow> char" where
  "allyColor_of s = (if whiteToMove s then CHR ''w'' else CHR ''b'')"

definition checksForPinsAndChecks :: "GameState \<Rightarrow> (bool \<times> ray list \<times> ray list) option" where
  "checksForPinsAndChecks s =
     (let enemyColor = enemyColor_of s; allyColor = allyColor_of s;
          sr = fst (kingLocation s); sc = snd (kingLocation s) in
      do { acc \<leftarrow> for_each (\<lambda>j acc. do { d \<leftarrow> getitem directions j;
                                         ray_loop (board s) enemyColor allyColor sr sc j d
                                           [1..7] None acc })
                     [0..7] (False, [], []);
           for_each (knight_check (board s) enemyColor sr sc) knightMoves acc })"

subsection \<open>The per-piece move generators\<close>

text \<open>
  Every generator is \<open>get...Moves(self, r, c, moves)\<close>: it appends to the list \<open>moves\<close> and
  may change \<open>self\<close>; the model returns the new list and the new state.

  The loop that opens getPawnMoves, getBishopMoves and getKnightMoves walks \<open>self.pins\<close>
  from the last index down, and at the first entry for the square \<open>(r, c)\<close> sets
  \<open>piecePinned\<close>, records the direction, removes that entry from \<open>self.pins\<close> and stops.
  The indices come from \<open>range(len(self.pins) - 1, -1, -1)\<close>, so \<open>ps ! i\<close> is in range.
  \<open>pinDirection\<close> is \<open>None\<close> for the empty tuple (getKnightMoves does not keep it).
\<close>

fun pin_loop :: "ray list \<Rightarrow> int \<Rightarrow> int \<Rightarrow> nat list \<Rightarrow> bool \<times> (int \<times> int) option \<times> ray list" where
  "pin_loop ps r c [] = (False, None, ps)"
| "pin_loop ps r c (i # rest) =
     (case ps ! i of (pr, pc, d0, d1) \<Rightarrow>
        if pr = r \<and> pc = c then (True, Some (d0, d1), remove1 (ps ! i) ps)
        else pin_loop ps r c rest)"

text \<open>The same loop in getRookMoves removes the entry only when the piece on \<open>(r, c)\<close> is
  not a queen.\<close>

fun rook_pin_loop :: "string list list \<Rightarrow> ray list \<Rightarrow> int \<Rightarrow> int \<Rightarrow> nat list \<Rightarrow>
    (bool \<times> (int \<times> int) option \<times> ray list) option" where
  "rook_pin_loop b ps r c [] = Some (False, None, ps)"
| "rook_pin_loop b ps r c (i # rest) =
     (case ps ! i of (pr, pc, d0, d1) \<Rightarrow>
        if pr = r \<and> pc = c then
          do { piece \<leftarrow> board_get b r c;
               kind \<leftarrow> getitem piece 1;
               Some (True, Some (d0, d1),
                     if kind \<noteq> CHR ''Q'' then remove1 (ps ! i) ps else ps) }
        else rook_pin_loop b ps r c rest)"

definition pin_indices :: "ray list \<Rightarrow> nat list" where
  "pin_indices ps = rev [0 ..< length ps]"

definition append_move :: "string list list \<Rightarrow> int \<times> int \<Rightarrow> int \<times> int \<Rightarrow> Move list \<Rightarrow> Move list option" where
  "append_move b startSq endSq moves = do { m \<leftarrow> Move_init startSq endSq b; Some (moves @ [m]) }"

definition pawn_moves_white :: "string list list \<Rightarrow> bool \<Rightarrow> (int \<times> int) option \<Rightarrow> int \<Rightarrow> int \<Rightarrow>
    Move list \<Rightarrow> Move list option" where
  "pawn_moves_white b piecePinned pinDirection r c moves =
     do { ahead \<leftarrow> board_get b (r - 1) c;
          moves1 \<leftarrow>
            (if ahead = ''--'' then
               (if \<not> piecePinned \<or> pinDirection = Some (-1, 0) then
                  do { ms \<leftarrow> append_move b (r, c) (r - 1, c) moves;
                       if r = 6 then
                         do { ahead2 \<leftarrow> board_get b (r - 2) c;
                              if ahead2 = ''--'' then append_move b (r, c) (r - 2, c) ms
                              else Some ms }
                       else Some ms }
                else Some moves)
             else Some moves);
          moves2 \<leftarrow>
            (if c - 1 \<ge> 0 then
               do { p \<leftarrow> board_get b (r - 1) (c - 1);
                    c0 \<leftarrow> getitem p 0;
                    if c0 = CHR ''b'' then
                      (if \<not> piecePinned \<or> pinDirection = Some (-1, -1)
                       then append_move b (r, c) (r - 1, c - 1) moves1 else Some moves1)
                    else Some moves1 }
             else Some moves1);
          (if c + 1 \<le> 7 then
             do { p \<leftarrow> board_get b (r - 1) (c + 1);
                  c0 \<leftarrow> getitem p 0;
                  if c0 = CHR ''b'' then
                    (if \<not> piecePinned \<or> pinDirection = Some (-1, 1)
                     then append_move b (r, c) (r - 1, c + 1) moves2 else Some moves2)
                  else Some moves2 }
           else Some moves2) }"

definition pawn_moves_black :: "string list list \<Rightarrow> bool \<Rightarrow> (int \<times> int) option \<Rightarrow> int \<Rightarrow> int \<Rightarrow>
    Move list \<Rightarrow> Move list option" where
  "pawn_moves_black b piecePinned pinDirection r c moves =
     do { ahead \<leftarrow> board_get b (r + 1) c;
          moves1 \<leftarrow>
            (if ahead = ''--'' then
               (if \<not> piecePinned \<or> pinDirection = Some (1, 0) then
                  do { ms \<leftarrow> append_move b (r, c) (r + 1, c) moves;
                       if r = 1 then
                         do { ahead2 \<leftarrow> board_get b (r + 2) c;
                              if ahead2 = ''--'' then append_move b (r, c) (r + 2, c) ms
                              else Some ms }
                       else Some ms }
                else Some moves)
             else Some moves);
          moves2 \<leftarrow>
            (if c - 1 \<ge> 0 then
               do { p \<leftarrow> board_get b (r + 1) (c - 1);
                    c0 \<leftarrow> getitem p 0;
                    if c0 = CHR ''w'' then
                      (if \<not> piecePinned \<or> pinDirection = Some (1, -1)
                       then append_move b (r, c) (r + 1, c - 1) moves1 else Some moves1)
                    else Some moves1 }
             else Some moves1);
          (if c + 1 \<le> 7 then
             do { p \<leftarrow> board_get b (r + 1) (c + 1);
                  c0 \<leftarrow> getitem p 0;
                  if c0 = CHR ''w'' then
                    (if \<not> piecePinned \<or> pinDirection = Some (1, 1)
                     then append_move b (r, c) (r + 1, c + 1) moves2 else Some moves2)
                  else Some moves2 }
           else Some moves2) }"

definition getPawnMoves :: "GameState \<Rightarrow> int \<Rightarrow> int \<Rightarrow> Move list \<Rightarrow> (Move list \<times> GameState) option" where
  "getPawnMoves s r c moves =
     (case pin_loop (pins s) r c (pin_indices (pins s)) of
        (piecePinned, pinDirection, ps) \<Rightarrow>
          do { moves' \<leftarrow> (if whiteToMove s
                          then pawn_moves_white (board s) piecePinned pinDirection r c moves
                          else pawn_moves_black (board s) piecePinned pinDirection r c moves);
               Some (moves', s \<lparr> pins := ps \<rparr>) })"

text \<open>
  The inner loop \<open>for i in range(1, 8)\<close> of getRookMoves and getBishopMoves (the two bodies
  are the same text). The \<open>else: break\<close> that the source comments as "off board" belongs to
  the pin test: a pinned piece stops on a direction off its pin axis, and a square off the
  board lets the loop run on.
\<close>

fun slide_loop :: "string list list \<Rightarrow> char \<Rightarrow> int \<Rightarrow> int \<Rightarrow> bool \<Rightarrow> (int \<times> int) option \<Rightarrow>
    int \<times> int \<Rightarrow> int list \<Rightarrow> Move list \<Rightarrow> Move list option" where
  "slide_loop b enemyColor r c piecePinned pinDirection d [] moves = Some moves"
| "slide_loop b enemyColor r c piecePinned pinDirection d (i # rest) moves =
     (let er = r + fst d * i; ec = c + snd d * i in
      if on_board er ec then
        (if \<not> piecePinned \<or> pinDirection = Some d \<or> pinDirection = Some (- fst d, - snd d) then
           do { endPiece \<leftarrow> board_get b er ec;
                if endPiece = ''--'' then
                  do { ms \<leftarrow> append_move b (r, c) (er, ec) moves;
                       slide_loop b enemyColor r c piecePinned pinDirection d rest ms }
                else
                  do { c0 \<leftarrow> getitem endPiece 0;
                       if c0 = enemyColor then append_move b (r, c) (er, ec) moves
                       else Some moves } }
         else Some moves)
      else slide_loop b enemyColor r c piecePinned pinDirection d rest moves)"

definition rook_directions :: "(int \<times> int) list" where
  "rook_directions = [(-1, 0), (1, 0), (0, -1), (0, 1)]"

definition bishop_directions :: "(int \<times> int) list" where
  "bishop_directions = [(-1, -1), (1, 1), (1, -1), (-1, 1)]"

definition getRookMoves :: "GameState \<Rightarrow> int \<Rightarrow> int \<Rightarrow> Move list \<Rightarrow> (Move list \<times> GameState) option" where
  "getRookMoves s r c moves =
     do { (piecePinned, pinDirection, ps) \<leftarrow>
            rook_pin_loop (board s) (pins s) r c (pin_indices (pins s));
          moves' \<leftarrow> for_each (\<lambda>d ms. slide_loop (board s) (enemyColor_of s) r c
                                        piecePinned pinDirection d [1..7] ms)
                      rook_directions moves;
          Some (moves', s \<lparr> pins := ps \<rparr>) }"

definition getBishopMoves :: "GameState \<Rightarrow> int \<Rightarrow> int \<Rightarrow> Move list \<Rightarrow> (Move list \<times> GameState) option" where
  "getBishopMoves s r c moves =
     (case pin_loop (pins s) r c (pin_indices (pins s)) of
        (piecePinned, pinDirection, ps) \<Rightarrow>
          do { moves' \<leftarrow> for_each (\<lambda>d ms. slide_loop (board s) (enemyColor_of s) r c
                                             piecePinned pinDirection d [1..7] ms)
                           bishop_directions moves;
               Some (moves', s \<lparr> pins := ps \<rparr>) })"

definition knight_step :: "string list list \<Rightarrow> char \<Rightarrow> bool \<Rightarrow> int \<Rightarrow> int \<Rightarrow> int \<times> int \<Rightarrow>
    Move list \<Rightarrow> Move list option" where
  "knight_step b allyColor piecePinned r c m moves =
     (let er = r + fst m; ec = c + snd m in
      if on_board er ec then
        (if \<not> piecePinned then
           do { endPiece \<leftarrow> board_get b er ec;
                c0 \<leftarrow> getitem endPiece 0;
                if c0 \<noteq> allyColor then append_move b (r, c) (er, ec) moves
                else Some moves }
         else Some moves)
      else Some moves)"

definition getKnightMoves :: "GameState \<Rightarrow> int \<Rightarrow> int \<Rightarrow> Move list \<Rightarrow> (Move list \<times> GameState) option" where
  "getKnightMoves s r c moves =
     (case pin_loop (pins s) r c (pin_indices (pins s)) of
        (piecePinned, pinDirection, ps) \<Rightarrow>
          do { moves' \<leftarrow> for_each (knight_step (board s) (allyColor_of s) piecePinned r c)
                           knightMoves moves;
               Some (moves', s \<lparr> pins := ps \<rparr>) })"

definition getQueenMoves :: "GameState \<Rightarrow> int \<Rightarrow> int \<Rightarrow> Move list \<Rightarrow> (Move list \<times> GameState) option" where
  "getQueenMoves s r c moves =
     do { (moves1, s1) \<leftarrow> getRookMoves s r c moves;
          getBishopMoves s1 r c moves1 }"

definition kingMoves :: "(int \<times> int) list" where
  "kingMoves = [(-1, -1), (-1, 0), (-1, 1), (0, -1), (0, 1), (1, -1), (1, 0), (1, 1)]"

definition set_king :: "char \<Rightarrow> int \<times> int \<Rightarrow> GameState \<Rightarrow> GameState" where
  "set_king allyColor sq s =
     (if allyColor = CHR ''w'' then s \<lparr> whiteKingLocation := sq \<rparr>
      else s \<lparr> blackKingLocation := sq \<rparr>)"

text \<open>The body of \<open>for i in range(8)\<close> in getKingMoves, lines 384 to 401: the king cache is
  set to the candidate square, the detector is run, and the cache is set to \<open>(r, c)\<close>.\<close>

definition king_step :: "char \<Rightarrow> int \<Rightarrow> int \<Rightarrow> int \<Rightarrow> Move list \<times> GameState \<Rightarrow>
    (Move list \<times> GameState) option" where
  "king_step allyColor r c i st =
     (case st of (moves, s) \<Rightarrow>
        do { km \<leftarrow> getitem kingMoves i;
             let er = r + fst km;
             let ec = c + snd km;
             if on_board er ec then
               do { endPiece \<leftarrow> board_get (board s) er ec;
                    c0 \<leftarrow> getitem endPiece 0;
                    if c0 \<noteq> allyColor then
                      do { let s1 = set_king allyColor (er, ec) s;
                           (ic, ps, cs) \<leftarrow> checksForPinsAndChecks s1;
                           moves' \<leftarrow> (if \<not> ic then append_move (board s1) (r, c) (er, ec) moves
                                       else Some moves);
                           Some (moves', set_king allyColor (r, c) s1) }
                    else Some (moves, s) }
             else Some (moves, s) })"

definition getKingMoves :: "GameState \<Rightarrow> int \<Rightarrow> int \<Rightarrow> Move list \<Rightarrow> (Move list \<times> GameState) option" where
  "getKingMoves s r c moves = for_each (king_step (allyColor_of s) r c) [0..7] (moves, s)"

subsection \<open>getAllPossibleMoves and getValidMoves\<close>

definition moveFunction :: "char \<Rightarrow> (GameState \<Rightarrow> int \<Rightarrow> int \<Rightarrow> Move list \<Rightarrow> (Move list \<times> GameState) option) option" where
  "moveFunction =
     dict_of [(CHR ''p'', getPawnMoves), (CHR ''R'', getRookMoves), (CHR ''N'', getKnightMoves),
              (CHR ''B'', getBishopMoves), (CHR ''Q'', getQueenMoves), (CHR ''K'', getKingMoves)]"

definition square_moves :: "int \<Rightarrow> int \<Rightarrow> Move list \<times> GameState \<Rightarrow> (Move list \<times> GameState) option" where
  "square_moves r c st =
     (case st of (moves, s) \<Rightarrow>
        do { sq \<leftarrow> board_get (board s) r c;
             turn \<leftarrow> getitem sq 0;
             if (turn = CHR ''w'' \<and> whiteToMove s) \<or> (turn = CHR ''b'' \<and> \<not> whiteToMove s) then
               do { sq' \<leftarrow> board_get (board s) r c;
                    piece \<leftarrow> getitem sq' 1;
                    gen \<leftarrow> moveFunction piece;
                    gen s r c moves }
             else Some (moves, s) })"

definition row_moves :: "int \<Rightarrow> Move list \<times> GameState \<Rightarrow> (Move list \<times> GameState) option" where
  "row_moves r st =
     do { row \<leftarrow> getitem (board (snd st)) r;
          for_each (square_moves r) [0 .. int (length row) - 1] st }"

definition getAllPossibleMoves :: "GameState \<Rightarrow> (Move list \<times> GameState) option" where
  "getAllPossibleMoves s = for_each row_moves [0 .. int (length (board s)) - 1] ([], s)"

text \<open>The loop of lines 93 to 97 that collects the squares from the king towards the
  checking piece, stopping after the checking piece's square.\<close>

fun valid_squares_loop :: "int \<Rightarrow> int \<Rightarrow> ray \<Rightarrow> int list \<Rightarrow> (int \<times> int) list \<Rightarrow> (int \<times> int) list" where
  "valid_squares_loop kingRow kingCol check [] validSquares = validSquares"
| "valid_squares_loop kingRow kingCol check (i # rest) validSquares =
     (case check of (checkRow, checkCol, d0, d1) \<Rightarrow>
        let validSquare = (kingRow + d0 * i, kingCol + d1 * i);
            validSquares' = validSquares @ [validSquare]
        in if fst validSquare = checkRow \<and> snd validSquare = checkCol then validSquares'
           else valid_squares_loop kingRow kingCol check rest validSquares')"

text \<open>\<open>moves.remove(x)\<close>: the first element equal to \<open>x\<close> under \<open>__eq__\<close> is removed;
  ValueError when there is none.\<close>

fun list_remove :: "Move list \<Rightarrow> Move \<Rightarrow> Move list option" where
  "list_remove [] x = None"
| "list_remove (y # ys) x =
     (if Move_eq y x then Some ys else do { ys' \<leftarrow> list_remove ys x; Some (y # ys') })"

text \<open>The loop of lines 99 to 102 over \<open>range(len(moves) - 1, -1, -1)\<close>.\<close>

fun remove_loop :: "(int \<times> int) list \<Rightarrow> int list \<Rightarrow> Move list \<Rightarrow> Move list option" where
  "remove_loop validSquares [] moves = Some moves"
| "remove_loop validSquares (i # rest) moves =
     do { mv \<leftarrow> getitem moves i;
          kind \<leftarrow> getitem (pieceMoved mv) 1;
          if kind \<noteq> CHR ''K'' then
            (if (endRow mv, endCol mv) \<notin> set validSquares then
               do { moves' \<leftarrow> list_remove moves mv;
                    remove_loop validSquares rest moves' }
             else remove_loop validSquares rest moves)
          else remove_loop validSquares rest moves }"

definition getValidMoves :: "GameState \<Rightarrow> (Move list \<times> GameState) option" where
  "getValidMoves s0 =
     do { (ic, ps, cs) \<leftarrow> checksForPinsAndChecks s0;
          let s = s0 \<lparr> inCheck := ic, pins := ps, checks := cs \<rparr>;
          let kingRow = fst (kingLocation s);
          let kingCol = snd (kingLocation s);
          if inCheck s then
            (if length (checks s) = 1 then
               do { (moves, s1) \<leftarrow> getAllPossibleMoves s;
                    check \<leftarrow> getitem (checks s1) 0;
                    let checkRow = fst check;
                    let checkCol = fst (snd check);
                    pieceChecking \<leftarrow> board_get (board s1) checkRow checkCol;
                    kind \<leftarrow> getitem pieceChecking 1;
                    let validSquares =
                          (if kind = CHR ''N'' then [(checkRow, checkCol)]
                           else valid_squares_loop kingRow kingCol check [1..7] []);
                    moves' \<leftarrow> remove_loop validSquares (rev [0 .. int (length moves) - 1]) moves;
                    Some (moves', s1) }
             else getKingMoves s kingRow kingCol [])
          else getAllPossibleMoves s }"

subsection \<open>Positions of a game\<close>

text \<open>
  The positions a game can be in: the initial state, the state a call of getValidMoves
  leaves behind, and the state after makeMove of one of the moves that call returned.
\<close>

inductive reachable :: "GameState \<Rightarrow> bool" where
  start: "reachable GameState_init"
| query: "reachable s \<Longrightarrow> getValidMoves s = Some (moves, s1) \<Longrightarrow> reachable s1"
| move: "reachable s \<Longrightarrow> getValidMoves s = Some (moves, s1) \<Longrightarrow> m \<in> set moves \<Longrightarrow>
         makeMove s1 m = Some s2 \<Longrightarrow> reachable s2"

text \<open>One ply chosen by its two squares, and a sequence of plies.\<close>

definition play :: "GameState \<Rightarrow> (int \<times> int) \<times> (int \<times> int) \<Rightarrow> GameState option" where
  "play s ply =
     do { (moves, s1) \<leftarrow> getValidMoves s;
          m \<leftarrow> Move_init (fst ply) (snd ply) (board s1);
          if m \<in> set moves then makeMove s1 m else None }"

fun plays :: "GameState \<Rightarrow> ((int \<times> int) \<times> (int \<times> int)) list \<Rightarrow> GameState option" where
  "plays s [] = Some s"
| "plays s (ply # rest) = do { s' \<leftarrow> play s ply; plays s' rest }"

text \<open>The detector run for the king of the side that has just moved.\<close>

definition check_on_mover :: "GameState \<Rightarrow> (bool \<times> ray list \<times> ray list) option" where
  "check_on_mover s = checksForPinsAndChecks (s \<lparr> whiteToMove := \<not> whiteToMove s \<rparr>)"

subsection \<open>Well-formed boards and the king caches\<close>

text \<open>The board of the data model: eight rows of eight two-character strings.\<close>

definition wf_board :: "string list list \<Rightarrow> bool" where
  "wf_board b = (length b = 8 \<and> (\<forall>row \<in> set b. length row = 8 \<and> (\<forall>cell \<in> set row. length cell = 2)))"

text \<open>The squares, by non-negative row and column, that hold the piece \<open>p\<close>.\<close>

definition squares_of :: "string list list \<Rightarrow> string \<Rightarrow> (int \<times> int) list" where
  "squares_of b p =
     concat (map (\<lambda>i. map (\<lambda>j. (int i, int j)) (filter (\<lambda>j. b ! i ! j = p) [0 ..< length (b ! i)]))
                 [0 ..< length b])"

text \<open>
  The invariant of the king caches: every cell is a two-character string, both caches
  are squares with non-negative coordinates, and a white (black) king stands nowhere
  but on the square cached in whiteKingLocation (blackKingLocation).
\<close>

definition king_cache_ok :: "GameState \<Rightarrow> bool" where
  "king_cache_ok s =
     ((\<forall>row \<in> set (board s). \<forall>cell \<in> set row. length cell = 2) \<and>
      0 \<le> fst (whiteKingLocation s) \<and> 0 \<le> snd (whiteKingLocation s) \<and>
      0 \<le> fst (blackKingLocation s) \<and> 0 \<le> snd (blackKingLocation s) \<and>
      set (squares_of (board s) ''wK'') \<subseteq> {whiteKingLocation s} \<and>
      set (squares_of (board s) ''bK'') \<subseteq> {blackKingLocation s})"

text \<open>What a generator may change: only the pins list and the two king caches.\<close>

definition frame :: "GameState \<Rightarrow> GameState \<Rightarrow> bool" where
  "frame s s' =
     (board s' = board s \<and> whiteToMove s' = whiteToMove s \<and> moveLog s' = moveLog s \<and>
      inCheck s' = inCheck s \<and> checks s' = checks s)"

text \<open>The moves that \<open>Move(sq, e, board)\<close> builds from the square \<open>sq\<close>.\<close>

definition from_square :: "string list list \<Rightarrow> int \<times> int \<Rightarrow> Move \<Rightarrow> bool" where
  "from_square b sq m = (\<exists>e. Move_init sq e b = Some m)"

text \<open>What is used of a move returned by getValidMoves on a board \<open>b\<close>: it was built by
  \<open>Move(sq, e, b)\<close> from a square \<open>sq\<close> with non-negative coordinates, and when the piece is
  a king its destination has non-negative coordinates too.\<close>

definition sound_move :: "string list list \<Rightarrow> Move \<Rightarrow> bool" where
  "sound_move b m =
     ((\<exists>sq e. 0 \<le> fst sq \<and> 0 \<le> snd sq \<and> Move_init sq e b = Some m) \<and>
      (pieceMoved m = ''wK'' \<or> pieceMoved m = ''bK'' \<longrightarrow> 0 \<le> endRow m \<and> 0 \<le> endCol m))"

subsection \<open>The squares that answer a check\<close>

text \<open>
  The squares from the king towards the checking piece, that piece's square included: a
  check \<open>(cr, cc, d0, d1)\<close> stands \<open>k\<close> steps of \<open>(d0, d1)\<close> from the king, and the square is
  \<open>i\<close> steps from the king with \<open>1 \<le> i \<le> k\<close>. For a knight the step is the knight's leap and
  \<open>k = 1\<close>.
\<close>

definition on_attack_ray :: "int \<times> int \<Rightarrow> ray \<Rightarrow> int \<times> int \<Rightarrow> bool" where
  "on_attack_ray king check sq =
     (case check of (cr, cc, d0, d1) \<Rightarrow>
        \<exists>i \<in> set [1..7]. \<exists>k \<in> set [i..7].
          (cr, cc) = (fst king + d0 * k, snd king + d1 * k) \<and>
          sq = (fst king + d0 * i, snd king + d1 * i))"

text \<open>What the detector's accumulator \<open>(inCheck, pins, checks)\<close> satisfies throughout: the
  flag says whether a check is recorded, and every recorded check lies on a line from the
  king, at most seven steps of its direction away.\<close>

definition det_ok :: "int \<times> int \<Rightarrow> bool \<times> ray list \<times> ray list \<Rightarrow> bool" where
  "det_ok king acc =
     ((fst acc = (snd (snd acc) \<noteq> [])) \<and>
      (\<forall>check \<in> set (snd (snd acc)). on_attack_ray king check (fst check, fst (snd check))))"

text \<open>The kind letter of the piece on the square of a check.\<close>

definition checker_kind :: "GameState \<Rightarrow> ray \<Rightarrow> char option" where
  "checker_kind s check =
     do { p \<leftarrow> board_get (board s) (fst check) (fst (snd check)); getitem p 1 }"

text \<open>The piece string of the king of the side to move.\<close>

definition own_king :: "GameState \<Rightarrow> string" where
  "own_king s = [allyColor_of s, CHR ''K'']"

subsection \<open>What a generator does to the pins list\<close>



subsection \<open>The moves of a white pawn on row 0\<close>

text \<open>
  What getPawnMoves appends for a white pawn on \<open>(0, c)\<close> of an eight by eight board, written
  with the squares that the index \<open>r - 1 = -1\<close> denotes, those of row 7: the move
  \<open>Move((0, c), (-1, c'), board)\<close> has the content of \<open>(7, c')\<close> as pieceCaptured; the step
  ahead is appended when \<open>(7, c)\<close> is empty, a capture when \<open>(7, c - 1)\<close> or \<open>(7, c + 1)\<close>
  holds a black piece, each subject to the pin test.
\<close>

definition back_rank_move :: "string list list \<Rightarrow> int \<Rightarrow> int \<Rightarrow> Move" where
  "back_rank_move b c c' =
     \<lparr> startRow = 0, startCol = c, endRow = - 1, endCol = c',
       pieceMoved = b ! 0 ! nat c, pieceCaptured = b ! 7 ! nat c',
       moveID = (- 1) * 1000 + c' * 100 + 0 * 10 + c \<rparr>"

definition back_rank_moves :: "string list list \<Rightarrow> bool \<Rightarrow> (int \<times> int) option \<Rightarrow> int \<Rightarrow> Move list" where
  "back_rank_moves b piecePinned pinDirection c =
     (if b ! 7 ! nat c = ''--'' \<and> (\<not> piecePinned \<or> pinDirection = Some (-1, 0))
      then [back_rank_move b c c] else []) @
     (if c - 1 \<ge> 0 \<and> b ! 7 ! nat (c - 1) ! 0 = CHR ''b'' \<and>
         (\<not> piecePinned \<or> pinDirection = Some (-1, -1))
      then [back_rank_move b c (c - 1)] else []) @
     (if c + 1 \<le> 7 \<and> b ! 7 ! nat (c + 1) ! 0 = CHR ''b'' \<and>
         (\<not> piecePinned \<or> pinDirection = Some (-1, 1))
      then [back_rank_move b c (c + 1)] else [])"

section \<open>Positions used as concrete inputs\<close>

definition pawn_e4 :: Move where
  "pawn_e4 = \<lparr> startRow = 6, startCol = 4, endRow = 4, endCol = 4,
               pieceMoved = ''wp'', pieceCaptured = ''--'', moveID = 4464 \<rparr>"


text \<open>After 1. d4 c6 2. Nc3 Qa5, white to move: the knight on \<open>(5, 2)\<close> stands between the
  white king on \<open>(7, 4)\<close> and the black queen on \<open>(3, 0)\<close>.\<close>

definition pinned_knight_position :: GameState where
  "pinned_knight_position =
     \<lparr> board =
         [[''bR'', ''bN'', ''bB'', ''--'', ''bK'', ''bB'', ''bN'', ''bR''],
          [''bp'', ''bp'', ''--'', ''bp'', ''bp'', ''bp'', ''bp'', ''bp''],
          [''--'', ''--'', ''bp'', ''--'', ''--'', ''--'', ''--'', ''--''],
          [''bQ'', ''--'', ''--'', ''--'', ''--'', ''--'', ''--'', ''--''],
          [''--'', ''--'', ''--'', ''wp'', ''--'', ''--'', ''--'', ''--''],
          [''--'', ''--'', ''wN'', ''--'', ''--'', ''--'', ''--'', ''--''],
          [''wp'', ''wp'', ''wp'', ''--'', ''wp'', ''wp'', ''wp'', ''wp''],
          [''wR'', ''--'', ''wB'', ''wQ'', ''wK'', ''wB'', ''wN'', ''wR'']],
       whiteToMove = True,
       moveLog =
         [\<lparr> startRow = 6, startCol = 3, endRow = 4, endCol = 3,
             pieceMoved = ''wp'', pieceCaptured = ''--'', moveID = 4363 \<rparr>,
          \<lparr> startRow = 1, startCol = 2, endRow = 2, endCol = 2,
             pieceMoved = ''bp'', pieceCaptured = ''--'', moveID = 2212 \<rparr>,
          \<lparr> startRow = 7, startCol = 1, endRow = 5, endCol = 2,
             pieceMoved = ''wN'', pieceCaptured = ''--'', moveID = 5271 \<rparr>,
          \<lparr> startRow = 0, startCol = 3, endRow = 3, endCol = 0,
             pieceMoved = ''bQ'', pieceCaptured = ''--'', moveID = 3003 \<rparr>],
       whiteKingLocation = (7, 4), blackKingLocation = (0, 4),
       inCheck = False, checks = [], pins = [] \<rparr>"

definition knight_b5 :: Move where
  "knight_b5 = \<lparr> startRow = 5, startCol = 2, endRow = 3, endCol = 1,
                 pieceMoved = ''wN'', pieceCaptured = ''--'', moveID = 3152 \<rparr>"

text \<open>A white pawn has reached row 0 on column 0 (promotion is not implemented); the
  square \<open>(7, 0)\<close> of the opposite edge is empty.\<close>

definition back_rank_pawn_position :: GameState where
  "back_rank_pawn_position =
     \<lparr> board =
         [[''wp'', ''--'', ''--'', ''--'', ''bK'', ''--'', ''--'', ''--''],
          [''--'', ''--'', ''--'', ''--'', ''--'', ''--'', ''--'', ''--''],
          [''--'', ''--'', ''--'', ''--'', ''--'', ''--'', ''--'', ''--''],
          [''--'', ''--'', ''--'', ''--'', ''--'', ''--'', ''--'', ''--''],
          [''--'', ''--'', ''--'', ''--'', ''--'', ''--'', ''--'', ''--''],
          [''--'', ''--'', ''--'', ''--'', ''--'', ''--'', ''--'', ''--''],
          [''--'', ''--'', ''--'', ''--'', ''--'', ''--'', ''--'', ''--''],
          [''--'', ''--'', ''--'', ''--'', ''wK'', ''--'', ''--'', ''--'']],
       whiteToMove = True, moveLog = [],
       whiteKingLocation = (7, 4), blackKingLocation = (0, 4),
       inCheck = False, checks = [], pins = [] \<rparr>"


text \<open>The white king on \<open>(7, 4)\<close> is attacked by the rook on \<open>(3, 4)\<close> and by the knight on
  \<open>(5, 3)\<close>.\<close>

definition double_check_position :: GameState where
  "double_check_position =
     \<lparr> board =
         [[''bK'', ''--'', ''--'', ''--'', ''--'', ''--'', ''--'', ''--''],
          [''--'', ''--'', ''--'', ''--'', ''--'', ''--'', ''--'', ''--''],
          [''--'', ''--'', ''--'', ''--'', ''--'', ''--'', ''--'', ''--''],
          [''--'', ''--'', ''--'', ''--'', ''bR'', ''--'', ''--'', ''--''],
          [''--'', ''--'', ''--'', ''--'', ''--'', ''--'', ''--'', ''--''],
          [''--'', ''--'', ''--'', ''bN'', ''--'', ''--'', ''--'', ''--''],
          [''--'', ''--'', ''--'', ''--'', ''--'', ''--'', ''--'', ''--''],
          [''wR'', ''--'', ''--'', ''--'', ''wK'', ''--'', ''--'', ''--'']],
       whiteToMove = True, moveLog = [],
       whiteKingLocation = (7, 4), blackKingLocation = (0, 0),
       inCheck = False, checks = [], pins = [] \<rparr>"

text \<open>The white king on \<open>(7, 4)\<close> is attacked by the rook on \<open>(3, 4)\<close> alone; the white rook
  on \<open>(5, 0)\<close> can step in between on \<open>(5, 4)\<close>.\<close>

definition single_check_position :: GameState where
  "single_check_position =
     \<lparr> board =
         [[''bK'', ''--'', ''--'', ''--'', ''--'', ''--'', ''--'', ''--''],
          [''--'', ''--'', ''--'', ''--'', ''--'', ''--'', ''--'', ''--''],
          [''--'', ''--'', ''--'', ''--'', ''--'', ''--'', ''--'', ''--''],
          [''--'', ''--'', ''--'', ''--'', ''bR'', ''--'', ''--'', ''--''],
          [''--'', ''--'', ''--'', ''--'', ''--'', ''--'', ''--'', ''--''],
          [''wR'', ''--'', ''--'', ''--'', ''--'', ''--'', ''--'', ''--''],
          [''--'', ''--'', ''--'', ''--'', ''--'', ''--'', ''--'', ''--''],
          [''--'', ''--'', ''--'', ''--'', ''wK'', ''--'', ''--'', ''--'']],
       whiteToMove = True, moveLog = [],
       whiteKingLocation = (7, 4), blackKingLocation = (0, 0),
       inCheck = False, checks = [], pins = [] \<rparr>"

text \<open>The white king on \<open>(7, 4)\<close> is attacked by the knight on \<open>(5, 3)\<close> alone; the white rook
  on \<open>(5, 0)\<close> can capture it.\<close>

definition knight_check_position :: GameState where
  "knight_check_position =
     \<lparr> board =
         [[''bK'', ''--'', ''--'', ''--'', ''--'', ''--'', ''--'', ''--''],
          [''--'', ''--'', ''--'', ''--'', ''--'', ''--'', ''--'', ''--''],
          [''--'', ''--'', ''--'', ''--'', ''--'', ''--'', ''--'', ''--''],
          [''--'', ''--'', ''--'', ''--'', ''--'', ''--'', ''--'', ''--''],
          [''--'', ''--'', ''--'', ''--'', ''--'', ''--'', ''--'', ''--''],
          [''wR'', ''--'', ''--'', ''bN'', ''--'', ''--'', ''--'', ''--''],
          [''--'', ''--'', ''--'', ''--'', ''--'', ''--'', ''--'', ''--''],
          [''--'', ''--'', ''--'', ''--'', ''wK'', ''--'', ''--'', ''--'']],
       whiteToMove = True, moveLog = [],
       whiteKingLocation = (7, 4), blackKingLocation = (0, 0),
       inCheck = False, checks = [], pins = [] \<rparr>"

text \<open>Ten plies after \<open>pinned_knight_position\<close>: the knight has left the diagonal, the black
  queen has taken the white king on \<open>(7, 4)\<close> and gone back to \<open>(5, 2)\<close>, the white queen has
  stepped onto \<open>(6, 3)\<close> and off again, and a black knight has reached \<open>(6, 2)\<close>. No white
  king is left; whiteKingLocation is still \<open>(7, 4)\<close>, an empty square.\<close>

definition captured_king_plies :: "((int \<times> int) \<times> (int \<times> int)) list" where
  "captured_king_plies =
     [((6, 3), (4, 3)), ((1, 2), (2, 2)), ((7, 1), (5, 2)), ((0, 3), (3, 0)),
      ((5, 2), (3, 1)), ((3, 0), (7, 4)), ((6, 0), (5, 0)), ((7, 4), (5, 2)),
      ((7, 3), (6, 3)), ((0, 1), (2, 0)), ((6, 7), (5, 7)), ((2, 0), (4, 1)),
      ((6, 3), (5, 3)), ((4, 1), (6, 2))]"

definition captured_king_position :: GameState where
  "captured_king_position =
     \<lparr> board =
         [[''bR'', ''--'', ''bB'', ''--'', ''bK'', ''bB'', ''bN'', ''bR''],
          [''bp'', ''bp'', ''--'', ''bp'', ''bp'', ''bp'', ''bp'', ''bp''],
          [''--'', ''--'', ''bp'', ''--'', ''--'', ''--'', ''--'', ''--''],
          [''--'', ''wN'', ''--'', ''--'', ''--'', ''--'', ''--'', ''--''],
          [''--'', ''--'', ''--'', ''wp'', ''--'', ''--'', ''--'', ''--''],
          [''wp'', ''--'', ''bQ'', ''wQ'', ''--'', ''--'', ''--'', ''wp''],
          [''--'', ''wp'', ''bN'', ''--'', ''wp'', ''wp'', ''wp'', ''--''],
          [''wR'', ''--'', ''wB'', ''--'', ''--'', ''wB'', ''wN'', ''wR'']],
       whiteToMove = True,
       moveLog =
         [\<lparr> startRow = 6, startCol = 3, endRow = 4, endCol = 3,
            pieceMoved = ''wp'', pieceCaptured = ''--'', moveID = 4363 \<rparr>,
          \<lparr> startRow = 1, startCol = 2, endRow = 2, endCol = 2,
            pieceMoved = ''bp'', pieceCaptured = ''--'', moveID = 2212 \<rparr>,
          \<lparr> startRow = 7, startCol = 1, endRow = 5, endCol = 2,
            pieceMoved = ''wN'', pieceCaptured = ''--'', moveID = 5271 \<rparr>,
          \<lparr> startRow = 0, startCol = 3, endRow = 3, endCol = 0,
            pieceMoved = ''bQ'', pieceCaptured = ''--'', moveID = 3003 \<rparr>,
          \<lparr> startRow = 5, startCol = 2, endRow = 3, endCol = 1,
            pieceMoved = ''wN'', pieceCaptured = ''--'', moveID = 3152 \<rparr>,
          \<lparr> startRow = 3, startCol = 0, endRow = 7, endCol = 4,
            pieceMoved = ''bQ'', pieceCaptured = ''wK'', moveID = 7430 \<rparr>,
          \<lparr> startRow = 6, startCol = 0, endRow = 5, endCol = 0,
            pieceMoved = ''wp'', pieceCaptured = ''--'', moveID = 5060 \<rparr>,
          \<lparr> startRow = 7, startCol = 4, endRow = 5, endCol = 2,
            pieceMoved = ''bQ'', pieceCaptured = ''--'', moveID = 5274 \<rparr>,
          \<lparr> startRow = 7, startCol = 3, endRow = 6, endCol = 3,
            pieceMoved = ''wQ'', pieceCaptured = ''--'', moveID = 6373 \<rparr>,
          \<lparr> startRow = 0, startCol = 1, endRow = 2, endCol = 0,
            pieceMoved = ''bN'', pieceCaptured = ''--'', moveID = 2001 \<rparr>,
          \<lparr> startRow = 6, startCol = 7, endRow = 5, endCol = 7,
            pieceMoved = ''wp'', pieceCaptured = ''--'', moveID = 5767 \<rparr>,
          \<lparr> startRow = 2, startCol = 0, endRow = 4, endCol = 1,
            pieceMoved = ''bN'', pieceCaptured = ''--'', moveID = 4120 \<rparr>,
          \<lparr> startRow = 6, startCol = 3, endRow = 5, endCol = 3,
            pieceMoved = ''wQ'', pieceCaptured = ''--'', moveID = 5363 \<rparr>,
          \<lparr> startRow = 4, startCol = 1, endRow = 6, endCol = 2,
            pieceMoved = ''bN'', pieceCaptured = ''wp'', moveID = 6241 \<rparr>],
       whiteKingLocation = (7, 4), blackKingLocation = (0, 4),
       inCheck = False, checks = [], pins = [] \<rparr>"

text \<open>A white pawn on \<open>(0, 0)\<close>; of the opposite edge, \<open>(7, 0)\<close> is empty and \<open>(7, 1)\<close> holds a
  black rook.\<close>

definition back_rank_capture_position :: GameState where
  "back_rank_capture_position =
     \<lparr> board =
         [[''wp'', ''--'', ''--'', ''--'', ''bK'', ''--'', ''--'', ''--''],
          [''--'', ''--'', ''--'', ''--'', ''--'', ''--'', ''--'', ''--''],
          [''--'', ''--'', ''--'', ''--'', ''--'', ''--'', ''--'', ''--''],
          [''--'', ''--'', ''--'', ''--'', ''--'', ''--'', ''--'', ''--''],
          [''--'', ''--'', ''--'', ''--'', ''--'', ''--'', ''--'', ''--''],
          [''--'', ''--'', ''--'', ''--'', ''--'', ''--'', ''--'', ''--''],
          [''--'', ''--'', ''--'', ''--'', ''--'', ''--'', ''--'', ''--''],
          [''--'', ''bR'', ''--'', ''--'', ''wK'', ''--'', ''--'', ''--'']],
       whiteToMove = True, moveLog = [],
       whiteKingLocation = (7, 4), blackKingLocation = (0, 4),
       inCheck = False, checks = [], pins = [] \<rparr>"

section \<open>Properties\<close>

subsection \<open>Notation\<close>

lemma colsToFiles_range:
  assumes "0 \<le> c" "c \<le> 7"
  shows "colsToFiles c = Some [''hgfedcba'' ! nat c]"
proof -
  from assms have "c = 0 \<or> c = 1 \<or> c = 2 \<or> c = 3 \<or> c = 4 \<or> c = 5 \<or> c = 6 \<or> c = 7"
    by arith
  then show ?thesis
    by (elim disjE) (simp_all add: colsToFiles_def dict_of_def filesToCols_def)
qed

lemma rowsToRanks_range:
  assumes "0 \<le> r" "r \<le> 7"
  shows "rowsToRanks r = Some [''87654321'' ! nat r]"
proof -
  from assms have "r = 0 \<or> r = 1 \<or> r = 2 \<or> r = 3 \<or> r = 4 \<or> r = 5 \<or> r = 6 \<or> r = 7"
    by arith
  then show ?thesis
    by (elim disjE) (simp_all add: rowsToRanks_def dict_of_def ranksToRows_def)
qed

text \<open>
  Claim C9. For a move whose four coordinates lie in \<open>[0, 7]\<close>, getChessNotation returns
  the four characters: file letter and rank digit of the start square, then file letter
  and rank digit of the end square. Column \<open>c\<close> has the letter at position \<open>c\<close> of
  \<open>hgfedcba\<close> (column 0 is h, column 7 is a) and row \<open>r\<close> the digit at position \<open>r\<close> of
  \<open>87654321\<close> (row 0 is 8, row 7 is 1).
\<close>

theorem getChessNotation_squares:
  assumes "0 \<le> startRow m" "startRow m \<le> 7" "0 \<le> startCol m" "startCol m \<le> 7"
    and "0 \<le> endRow m" "endRow m \<le> 7" "0 \<le> endCol m" "endCol m \<le> 7"
  shows "getChessNotation m =
           Some [''hgfedcba'' ! nat (startCol m), ''87654321'' ! nat (startRow m),
                 ''hgfedcba'' ! nat (endCol m), ''87654321'' ! nat (endRow m)]"
  using assms
  by (simp add: getChessNotation_def getRankFile_def colsToFiles_range rowsToRanks_range)

theorem getChessNotation_squares_witness:
  "0 \<le> startRow pawn_e4 \<and> startRow pawn_e4 \<le> 7 \<and> 0 \<le> startCol pawn_e4 \<and> startCol pawn_e4 \<le> 7 \<and>
   0 \<le> endRow pawn_e4 \<and> endRow pawn_e4 \<le> 7 \<and> 0 \<le> endCol pawn_e4 \<and> endCol pawn_e4 \<le> 7 \<and>
   getChessNotation pawn_e4 = Some ''d2d4''"
  using getChessNotation_squares [of pawn_e4] by (simp add: pawn_e4_def)

subsection \<open>Undo on an empty log\<close>

text \<open>
  Claim C8. undoMove on a state whose moveLog is empty raises nothing and returns the
  state as it was: board, whiteToMove, both king caches and moveLog are unchanged.
\<close>

theorem undoMove_empty_log:
  "moveLog s = [] \<Longrightarrow> undoMove s = Some s"
  by (simp add: undoMove_def)

theorem undoMove_empty_log_witness:
  "moveLog GameState_init = [] \<and> undoMove GameState_init = Some GameState_init"
  using undoMove_empty_log [of GameState_init] by (simp add: GameState_init_def)

subsection \<open>Legal play reaches the position with the knight in front of the king\<close>

lemma play_reachable:
  assumes "reachable s" "play s ply = Some s'"
  shows "reachable s'"
  using assms
  by (auto simp: play_def bind_eq_Some_conv split: if_splits intro: reachable.move)

lemma plays_reachable: "reachable s \<Longrightarrow> plays s plies = Some s' \<Longrightarrow> reachable s'"
  by (induction plies arbitrary: s) (auto simp: bind_eq_Some_conv dest: play_reachable)

lemma plays_pinned_knight:
  "plays GameState_init [((6, 3), (4, 3)), ((1, 2), (2, 2)), ((7, 1), (5, 2)), ((0, 3), (3, 0))]
     = Some pinned_knight_position"
  by code_simp

lemma reachable_pinned_knight: "reachable pinned_knight_position"
  using plays_reachable [OF reachable.start plays_pinned_knight] .

text \<open>
  Claim C2, evaluated where the code departs from it. In \<open>pinned_knight_position\<close> the
  ray from the white king on \<open>(7, 4)\<close> in direction \<open>(-1, -1)\<close> meets one friendly piece, the
  knight on \<open>(5, 2)\<close>, and then the black queen on \<open>(3, 0)\<close>. The claim puts
  \<open>(5, 2, -1, -1)\<close> in the returned pins; the detector returns no pin at all (and, as
  the claim says, no check for that ray).
\<close>

theorem pinned_ray_not_recorded:
  "checksForPinsAndChecks pinned_knight_position = Some (False, [], [])"
  by code_simp

text \<open>
  Claim C1, evaluated where the code departs from it. \<open>pinned_knight_position\<close> is reached
  by legal play; getValidMoves returns the knight move from \<open>(5, 2)\<close> to \<open>(3, 1)\<close>; after
  makeMove of that move the detector, run for the white king, reports a check by the
  queen on \<open>(3, 0)\<close>.
\<close>

theorem pinned_knight_move_exposes_king:
  "reachable pinned_knight_position \<and>
   map_option (\<lambda>(moves, s1). knight_b5 \<in> set moves) (getValidMoves pinned_knight_position) = Some True \<and>
   do { (moves, s1) \<leftarrow> getValidMoves pinned_knight_position;
        s2 \<leftarrow> makeMove s1 knight_b5;
        check_on_mover s2 } = Some (True, [], [(3, 0, -1, -1)])"
proof -
  have listed: "map_option (\<lambda>(moves, s1). knight_b5 \<in> set moves)
                  (getValidMoves pinned_knight_position) = Some True"
    by code_simp
  have exposed: "do { (moves, s1) \<leftarrow> getValidMoves pinned_knight_position;
                      s2 \<leftarrow> makeMove s1 knight_b5;
                      check_on_mover s2 } = Some (True, [], [(3, 0, -1, -1)])"
    by code_simp
  from reachable_pinned_knight listed exposed show ?thesis by blast
qed

subsection \<open>Loops, indexing and the detector's pins\<close>

lemma for_each_inv:
  assumes "for_each f xs s = Some s'" and "P s"
    and "\<And>x a a'. x \<in> set xs \<Longrightarrow> P a \<Longrightarrow> f x a = Some a' \<Longrightarrow> P a'"
  shows "P s'"
  using assms
proof (induction xs arbitrary: s)
  case Nil
  then show ?case by simp
next
  case (Cons x xs)
  from Cons.prems(1) obtain a where a: "f x s = Some a" and r: "for_each f xs a = Some s'"
    by (auto simp: bind_eq_Some_conv)
  have "P a" using Cons.prems(2,3) a by auto
  then show ?case using Cons.IH [OF r] Cons.prems(3) by auto
qed

lemma ray_loop_pins:
  "ray_loop b ec ac sr sc j d is pp acc = Some acc' \<Longrightarrow> fst (snd acc') = fst (snd acc)"
  by (induction "is" arbitrary: pp acc)
     (auto simp: Let_def bind_eq_Some_conv split: if_splits prod.splits)

lemma knight_check_pins:
  "knight_check b ec sr sc m acc = Some acc' \<Longrightarrow> fst (snd acc') = fst (snd acc)"
  by (auto simp: knight_check_def Let_def bind_eq_Some_conv split: if_splits prod.splits)

lemma checksForPinsAndChecks_pins:
  assumes "checksForPinsAndChecks s = Some (ic, ps, cs)"
  shows "ps = []"
proof -
  from assms obtain acc where
    a: "for_each (\<lambda>j acc. do { d \<leftarrow> getitem directions j;
                                ray_loop (board s) (enemyColor_of s) (allyColor_of s)
                                  (fst (kingLocation s)) (snd (kingLocation s)) j d [1..7] None acc })
          [0..7] (False, [], []) = Some acc"
    and k: "for_each (knight_check (board s) (enemyColor_of s) (fst (kingLocation s)) (snd (kingLocation s)))
              knightMoves acc = Some (ic, ps, cs)"
    by (auto simp: checksForPinsAndChecks_def Let_def bind_eq_Some_conv)
  have "fst (snd acc) = []"
    by (rule for_each_inv [OF a, where P = "\<lambda>x. fst (snd x) = []"])
       (auto simp: bind_eq_Some_conv dest: ray_loop_pins)
  then have "fst (snd (ic, ps, cs)) = []"
    by (intro for_each_inv [OF k, where P = "\<lambda>x. fst (snd x) = []"])
       (auto dest: knight_check_pins)
  then show ?thesis by simp
qed

subsection \<open>Where the moves of the generators come from\<close>

lemma append_move_from:
  "append_move b sq e moves = Some ms \<Longrightarrow> set ms \<subseteq> set moves \<union> Collect (from_square b sq)"
proof -
  assume "append_move b sq e moves = Some ms"
  then obtain m where "Move_init sq e b = Some m" "ms = moves @ [m]"
    by (auto simp: append_move_def bind_eq_Some_conv)
  moreover from this have "from_square b sq m"
    unfolding from_square_def by blast
  ultimately show ?thesis by auto
qed

lemma pawn_moves_white_from:
  assumes "pawn_moves_white b pp pd r c moves = Some ms"
  shows "set ms \<subseteq> set moves \<union> Collect (from_square b (r, c))"
proof -
  from assms obtain m1 m2 where
    s1: "set m1 \<subseteq> set moves \<union> Collect (from_square b (r, c))" and
    s2: "set m2 \<subseteq> set m1 \<union> Collect (from_square b (r, c))" and
    s3: "set ms \<subseteq> set m2 \<union> Collect (from_square b (r, c))"
    unfolding pawn_moves_white_def bind_eq_Some_conv
    apply (elim exE conjE)
    subgoal for ahead m1 m2
      apply (rule that [of m1 m2])
      subgoal by (fastforce simp: bind_eq_Some_conv split: if_splits dest!: append_move_from)
      subgoal by (fastforce simp: bind_eq_Some_conv split: if_splits dest!: append_move_from)
      subgoal by (fastforce simp: bind_eq_Some_conv split: if_splits dest!: append_move_from)
      done
    done
  then show ?thesis by blast
qed

lemma pawn_moves_black_from:
  assumes "pawn_moves_black b pp pd r c moves = Some ms"
  shows "set ms \<subseteq> set moves \<union> Collect (from_square b (r, c))"
proof -
  from assms obtain m1 m2 where
    s1: "set m1 \<subseteq> set moves \<union> Collect (from_square b (r, c))" and
    s2: "set m2 \<subseteq> set m1 \<union> Collect (from_square b (r, c))" and
    s3: "set ms \<subseteq> set m2 \<union> Collect (from_square b (r, c))"
    unfolding pawn_moves_black_def bind_eq_Some_conv
    apply (elim exE conjE)
    subgoal for ahead m1 m2
      apply (rule that [of m1 m2])
      subgoal by (fastforce simp: bind_eq_Some_conv split: if_splits dest!: append_move_from)
      subgoal by (fastforce simp: bind_eq_Some_conv split: if_splits dest!: append_move_from)
      subgoal by (fastforce simp: bind_eq_Some_conv split: if_splits dest!: append_move_from)
      done
    done
  then show ?thesis by blast
qed

lemma getPawnMoves_from:
  "getPawnMoves s r c moves = Some (ms, s') \<Longrightarrow>
     set ms \<subseteq> set moves \<union> Collect (from_square (board s) (r, c))"
  by (auto simp: getPawnMoves_def bind_eq_Some_conv split: prod.splits if_splits
           dest!: pawn_moves_white_from pawn_moves_black_from)

lemma getPawnMoves_state:
  "getPawnMoves s r c moves = Some (ms, s') \<Longrightarrow> s' = s \<lparr> pins := pins s' \<rparr>"
  by (auto simp: getPawnMoves_def bind_eq_Some_conv split: prod.splits)

lemma slide_loop_from:
  "slide_loop b ec r c pp pd d is moves = Some ms \<Longrightarrow>
     set ms \<subseteq> set moves \<union> Collect (from_square b (r, c))"
proof (induction "is" arbitrary: moves)
  case Nil
  then show ?case by simp
next
  case (Cons i rest)
  show ?case
    using Cons.prems
    by (auto simp: Let_def bind_eq_Some_conv split: if_splits
             dest!: append_move_from Cons.IH)
qed

lemma slides_from:
  assumes "for_each (\<lambda>d ms. slide_loop b ec r c pp pd d is ms) ds moves = Some ms"
  shows "set ms \<subseteq> set moves \<union> Collect (from_square b (r, c))"
  by (rule for_each_inv [OF assms, where P = "\<lambda>x. set x \<subseteq> set moves \<union> Collect (from_square b (r, c))"])
     (auto dest!: slide_loop_from)

lemma getRookMoves_from:
  "getRookMoves s r c moves = Some (ms, s') \<Longrightarrow>
     set ms \<subseteq> set moves \<union> Collect (from_square (board s) (r, c))"
  by (auto simp: getRookMoves_def bind_eq_Some_conv dest!: slides_from)

lemma getRookMoves_state:
  "getRookMoves s r c moves = Some (ms, s') \<Longrightarrow> s' = s \<lparr> pins := pins s' \<rparr>"
  by (auto simp: getRookMoves_def bind_eq_Some_conv)

lemma getBishopMoves_from:
  "getBishopMoves s r c moves = Some (ms, s') \<Longrightarrow>
     set ms \<subseteq> set moves \<union> Collect (from_square (board s) (r, c))"
  by (auto simp: getBishopMoves_def bind_eq_Some_conv split: prod.splits dest!: slides_from)

lemma getBishopMoves_state:
  "getBishopMoves s r c moves = Some (ms, s') \<Longrightarrow> s' = s \<lparr> pins := pins s' \<rparr>"
  by (auto simp: getBishopMoves_def bind_eq_Some_conv split: prod.splits)

lemma knight_steps_from:
  assumes "for_each (knight_step b ac pp r c) ks moves = Some ms"
  shows "set ms \<subseteq> set moves \<union> Collect (from_square b (r, c))"
  by (rule for_each_inv [OF assms, where P = "\<lambda>x. set x \<subseteq> set moves \<union> Collect (from_square b (r, c))"])
     (auto simp: knight_step_def Let_def bind_eq_Some_conv split: if_splits dest!: append_move_from)

lemma getKnightMoves_from:
  "getKnightMoves s r c moves = Some (ms, s') \<Longrightarrow>
     set ms \<subseteq> set moves \<union> Collect (from_square (board s) (r, c))"
  by (auto simp: getKnightMoves_def bind_eq_Some_conv split: prod.splits dest!: knight_steps_from)

lemma getKnightMoves_state:
  "getKnightMoves s r c moves = Some (ms, s') \<Longrightarrow> s' = s \<lparr> pins := pins s' \<rparr>"
  by (auto simp: getKnightMoves_def bind_eq_Some_conv split: prod.splits)

lemma getQueenMoves_from:
  assumes "getQueenMoves s r c moves = Some (ms, s')"
  shows "set ms \<subseteq> set moves \<union> Collect (from_square (board s) (r, c))"
proof -
  from assms obtain m1 s1 where
    a: "getRookMoves s r c moves = Some (m1, s1)" and b: "getBishopMoves s1 r c m1 = Some (ms, s')"
    by (auto simp: getQueenMoves_def bind_eq_Some_conv)
  have "board s1 = board s" using getRookMoves_state [OF a] by (metis GameState.select_convs(1) GameState.surjective GameState.update_convs(8))
  with getRookMoves_from [OF a] getBishopMoves_from [OF b] show ?thesis by auto
qed

lemma getQueenMoves_state:
  assumes "getQueenMoves s r c moves = Some (ms, s')"
  shows "s' = s \<lparr> pins := pins s' \<rparr>"
proof -
  from assms obtain m1 s1 where
    a: "getRookMoves s r c moves = Some (m1, s1)" and b: "getBishopMoves s1 r c m1 = Some (ms, s')"
    by (auto simp: getQueenMoves_def bind_eq_Some_conv)
  from getRookMoves_state [OF a] getBishopMoves_state [OF b] show ?thesis
    by (cases s, cases s1, cases s') simp
qed

subsection \<open>Indexing a well-formed board\<close>

lemma py_index_less: "py_index n i = Some k \<Longrightarrow> k < n"
  by (auto simp: py_index_def split: if_splits)

lemma py_index_total: "- int n \<le> i \<Longrightarrow> i < int n \<Longrightarrow> \<exists>k. py_index n i = Some k"
  by (auto simp: py_index_def)

lemma getitem_Some_iff:
  "getitem xs i = Some v \<longleftrightarrow> (\<exists>k. py_index (length xs) i = Some k \<and> v = xs ! k)"
  by (auto simp: getitem_def bind_eq_Some_conv)

lemma getitem_in_set: "getitem xs i = Some v \<Longrightarrow> v \<in> set xs"
  by (auto simp: getitem_Some_iff dest: py_index_less)

lemma board_get_Some_iff:
  "board_get b r c = Some v \<longleftrightarrow>
     (\<exists>i j. py_index (length b) r = Some i \<and> py_index (length (b ! i)) c = Some j \<and> v = b ! i ! j)"
  by (auto simp: board_get_def bind_eq_Some_conv getitem_Some_iff)

lemma wf_board_get:
  assumes "wf_board b" "- 8 \<le> r" "r < 8" "- 8 \<le> c" "c < 8"
  shows "\<exists>v. board_get b r c = Some v \<and> length v = 2"
proof -
  from assms have len: "length b = 8" by (simp add: wf_board_def)
  with assms obtain i where i: "py_index (length b) r = Some i"
    using py_index_total [of "length b" r] by auto
  then have "i < length b" by (rule py_index_less)
  then have row: "b ! i \<in> set b" by simp
  with assms have rl: "length (b ! i) = 8" by (simp add: wf_board_def)
  with assms obtain j where j: "py_index (length (b ! i)) c = Some j"
    using py_index_total [of "length (b ! i)" c] by auto
  then have "j < length (b ! i)" by (rule py_index_less)
  then have "b ! i ! j \<in> set (b ! i)" by simp
  with row assms have "length (b ! i ! j) = 2" by (auto simp: wf_board_def)
  with i j show ?thesis by (auto simp: board_get_Some_iff)
qed

lemma getitem_str0: "length v = 2 \<Longrightarrow> \<exists>ch. getitem v 0 = Some ch"
  by (simp add: getitem_def py_index_def)

lemma Move_init_wf:
  assumes "wf_board b" "- 8 \<le> fst a" "fst a < 8" "- 8 \<le> snd a" "snd a < 8"
    and "- 8 \<le> fst e" "fst e < 8" "- 8 \<le> snd e" "snd e < 8"
  shows "\<exists>m. Move_init a e b = Some m"
proof -
  from wf_board_get [OF assms(1-5)] obtain v where "board_get b (fst a) (snd a) = Some v" by blast
  moreover from wf_board_get [OF assms(1) assms(6-9)] obtain w where "board_get b (fst e) (snd e) = Some w" by blast
  ultimately show ?thesis by (simp add: Move_init_def)
qed

lemma append_move_wf:
  assumes "wf_board b" "- 8 \<le> fst a" "fst a < 8" "- 8 \<le> snd a" "snd a < 8"
    and "- 8 \<le> fst e" "fst e < 8" "- 8 \<le> snd e" "snd e < 8"
  shows "\<exists>ms. append_move b a e moves = Some ms"
  using Move_init_wf [OF assms] by (auto simp: append_move_def)

lemma capture_total:
  assumes wf: "wf_board b" and a: "- 8 \<le> fst a" "fst a < 8" "- 8 \<le> snd a" "snd a < 8"
    and e: "- 8 \<le> er" "er < 8" "- 8 \<le> ec" "ec < 8"
  shows "\<exists>ms. do { p \<leftarrow> board_get b er ec;
                    c0 \<leftarrow> getitem p 0;
                    if c0 = col then (if ok then append_move b a (er, ec) m1 else Some m1)
                    else Some m1 } = Some ms"
proof -
  from wf_board_get [OF wf e] obtain p where p: "board_get b er ec = Some p" "length p = 2" by auto
  from getitem_str0 [OF p(2)] obtain c0 where c0: "getitem p 0 = Some c0" by blast
  from append_move_wf [OF wf a, of "(er, ec)" m1] e
  obtain ms where "append_move b a (er, ec) m1 = Some ms" by auto
  with p c0 show ?thesis by auto
qed

lemma pawn_moves_white_row0:
  assumes wf: "wf_board b" and c: "0 \<le> c" "c \<le> 7"
  shows "\<exists>ms. pawn_moves_white b pp pd 0 c moves = Some ms"
proof -
  from wf_board_get [OF wf, of "-1" c] c obtain ahead where
    ahead: "board_get b (0 - 1) c = Some ahead" by auto
  from append_move_wf [OF wf, of "(0, c)" "(- 1, c)" moves] c
  obtain ms0 where ms0: "append_move b (0, c) (- 1, c) moves = Some ms0" by auto
  have "\<exists>m1. (if ahead = ''--'' then
               (if \<not> pp \<or> pd = Some (-1, 0) then
                  do { ms \<leftarrow> append_move b (0, c) (0 - 1, c) moves;
                       if (0::int) = 6 then
                         do { ahead2 \<leftarrow> board_get b (0 - 2) c;
                              if ahead2 = ''--'' then append_move b (0, c) (0 - 2, c) ms
                              else Some ms }
                       else Some ms }
                else Some moves)
             else Some moves) = Some m1"
    using ms0 by auto
  then obtain m1 where m1: "(if ahead = ''--'' then
               (if \<not> pp \<or> pd = Some (-1, 0) then
                  do { ms \<leftarrow> append_move b (0, c) (0 - 1, c) moves;
                       if (0::int) = 6 then
                         do { ahead2 \<leftarrow> board_get b (0 - 2) c;
                              if ahead2 = ''--'' then append_move b (0, c) (0 - 2, c) ms
                              else Some ms }
                       else Some ms }
                else Some moves)
             else Some moves) = Some m1" by blast
  have "\<exists>m2. (if c - 1 \<ge> 0 then
               do { p \<leftarrow> board_get b (0 - 1) (c - 1);
                    c0 \<leftarrow> getitem p 0;
                    if c0 = CHR ''b'' then
                      (if \<not> pp \<or> pd = Some (-1, -1)
                       then append_move b (0, c) (0 - 1, c - 1) m1 else Some m1)
                    else Some m1 }
             else Some m1) = Some m2"
    using capture_total [OF wf, of "(0, c)" "0 - 1" "c - 1" "CHR ''b''" "\<not> pp \<or> pd = Some (-1, -1)" m1] c
    by (cases "c - 1 \<ge> 0") auto
  then obtain m2 where m2: "(if c - 1 \<ge> 0 then
               do { p \<leftarrow> board_get b (0 - 1) (c - 1);
                    c0 \<leftarrow> getitem p 0;
                    if c0 = CHR ''b'' then
                      (if \<not> pp \<or> pd = Some (-1, -1)
                       then append_move b (0, c) (0 - 1, c - 1) m1 else Some m1)
                    else Some m1 }
             else Some m1) = Some m2" by blast
  have "\<exists>m3. (if c + 1 \<le> 7 then
             do { p \<leftarrow> board_get b (0 - 1) (c + 1);
                  c0 \<leftarrow> getitem p 0;
                  if c0 = CHR ''b'' then
                    (if \<not> pp \<or> pd = Some (-1, 1)
                     then append_move b (0, c) (0 - 1, c + 1) m2 else Some m2)
                  else Some m2 }
           else Some m2) = Some m3"
    using capture_total [OF wf, of "(0, c)" "0 - 1" "c + 1" "CHR ''b''" "\<not> pp \<or> pd = Some (-1, 1)" m2] c
    by (cases "c + 1 \<le> 7") auto
  then obtain m3 where m3: "(if c + 1 \<le> 7 then
             do { p \<leftarrow> board_get b (0 - 1) (c + 1);
                  c0 \<leftarrow> getitem p 0;
                  if c0 = CHR ''b'' then
                    (if \<not> pp \<or> pd = Some (-1, 1)
                     then append_move b (0, c) (0 - 1, c + 1) m2 else Some m2)
                  else Some m2 }
           else Some m2) = Some m3" by blast
  have "pawn_moves_white b pp pd 0 c moves = Some m3"
    unfolding pawn_moves_white_def
    by (simp only: ahead m1 m2 m3 Option.bind.bind_lunit)
  then show ?thesis by blast
qed

subsection \<open>A white pawn on row 0\<close>

lemma wf_board_row7:
  assumes "wf_board b" "0 \<le> c" "c \<le> 7"
  shows "board_get b (- 1) c = Some (b ! 7 ! nat c)"
proof -
  from assms have "length b = 8" "length (b ! 7) = 8" by (simp_all add: wf_board_def)
  with assms(2,3) show ?thesis by (simp add: board_get_def getitem_def py_index_def)
qed

lemma wf_board_row0:
  assumes "wf_board b" "0 \<le> c" "c \<le> 7"
  shows "board_get b 0 c = Some (b ! 0 ! nat c)"
proof -
  from assms have "length b = 8" "length (b ! 0) = 8" by (simp_all add: wf_board_def)
  with assms(2,3) show ?thesis by (simp add: board_get_def getitem_def py_index_def)
qed

lemma wf_board_cell0:
  assumes "wf_board b" "0 \<le> c" "c \<le> 7"
  shows "getitem (b ! 7 ! nat c) 0 = Some (b ! 7 ! nat c ! 0)"
proof -
  from assms have l: "length b = 8" "length (b ! 7) = 8" by (simp_all add: wf_board_def)
  then have r: "b ! 7 \<in> set b" by simp
  from l assms(2,3) have "b ! 7 ! nat c \<in> set (b ! 7)" by simp
  with r assms(1) have "length (b ! 7 ! nat c) = 2" unfolding wf_board_def by blast
  then show ?thesis by (simp add: getitem_def py_index_def)
qed

lemma append_move_back_rank:
  assumes "wf_board b" "0 \<le> c" "c \<le> 7" "0 \<le> c'" "c' \<le> 7"
  shows "append_move b (0, c) (- 1, c') ms = Some (ms @ [back_rank_move b c c'])"
  using wf_board_row0 [OF assms(1,2,3)] wf_board_row7 [OF assms(1,4,5)]
  by (simp add: append_move_def Move_init_def back_rank_move_def)

lemma pawn_moves_white_row0_eq:
  assumes wf: "wf_board b" and c: "0 \<le> c" "c \<le> 7"
  shows "pawn_moves_white b pp pd 0 c moves = Some (moves @ back_rank_moves b pp pd c)"
proof -
  note a0 = append_move_back_rank [OF wf c c]
  have a1: "0 \<le> c - 1 \<Longrightarrow> append_move b (0, c) (- 1, c - 1) ms
              = Some (ms @ [back_rank_move b c (c - 1)])" for ms
    using append_move_back_rank [OF wf c, of "c - 1"] c by simp
  have a2: "c + 1 \<le> 7 \<Longrightarrow> append_move b (0, c) (- 1, c + 1) ms
              = Some (ms @ [back_rank_move b c (c + 1)])" for ms
    using append_move_back_rank [OF wf c, of "c + 1"] c by simp
  have g1: "0 \<le> c - 1 \<Longrightarrow> board_get b (- 1) (c - 1) = Some (b ! 7 ! nat (c - 1))"
    using wf_board_row7 [OF wf, of "c - 1"] c by simp
  have g2: "c + 1 \<le> 7 \<Longrightarrow> board_get b (- 1) (c + 1) = Some (b ! 7 ! nat (c + 1))"
    using wf_board_row7 [OF wf, of "c + 1"] c by simp
  have h1: "0 \<le> c - 1 \<Longrightarrow> getitem (b ! 7 ! nat (c - 1)) 0 = Some (b ! 7 ! nat (c - 1) ! 0)"
    using wf_board_cell0 [OF wf, of "c - 1"] c by simp
  have h2: "c + 1 \<le> 7 \<Longrightarrow> getitem (b ! 7 ! nat (c + 1)) 0 = Some (b ! 7 ! nat (c + 1) ! 0)"
    using wf_board_cell0 [OF wf, of "c + 1"] c by simp
  show ?thesis
    unfolding pawn_moves_white_def back_rank_moves_def
    by (simp add: wf_board_row7 [OF wf c] a0 a1 a2 g1 g2 h1 h2)
qed

text \<open>
  Claim C10. With white to move, on a well-formed board and for every column \<open>c\<close> in
  \<open>[0, 7]\<close>, getPawnMoves for the square \<open>(0, c)\<close> returns (no IndexError), whatever the
  pins list and the list of moves so far, and what it returns is decided by row 7, the
  row that the index \<open>0 - 1\<close> denotes: it appends the step to \<open>(-1, c)\<close> exactly when
  \<open>(7, c)\<close> is empty and a capture to \<open>(-1, c - 1)\<close> or \<open>(-1, c + 1)\<close> exactly when \<open>(7, c - 1)\<close>
  or \<open>(7, c + 1)\<close> holds a black piece (and the pin test admits the direction); the
  pieceCaptured of each appended move is the content of the square of row 7.
\<close>

theorem getPawnMoves_row0_reads_row7:
  assumes "wf_board (board s)" "whiteToMove s" "0 \<le> c" "c \<le> 7"
  shows "getPawnMoves s 0 c moves =
           (case pin_loop (pins s) 0 c (pin_indices (pins s)) of
              (piecePinned, pinDirection, ps) \<Rightarrow>
                Some (moves @ back_rank_moves (board s) piecePinned pinDirection c,
                      s \<lparr> pins := ps \<rparr>))"
  using assms(2) pawn_moves_white_row0_eq [OF assms(1,3,4)]
  by (simp add: getPawnMoves_def split: prod.splits)

lemma wf_back_rank_capture_position: "wf_board (board back_rank_capture_position)"
  by (simp add: wf_board_def back_rank_capture_position_def)

theorem getPawnMoves_row0_reads_row7_witness:
  "getPawnMoves back_rank_capture_position 0 0 [] =
     Some ([\<lparr> startRow = 0, startCol = 0, endRow = - 1, endCol = 0,
               pieceMoved = ''wp'', pieceCaptured = ''--'', moveID = - 1000 \<rparr>,
            \<lparr> startRow = 0, startCol = 0, endRow = - 1, endCol = 1,
               pieceMoved = ''wp'', pieceCaptured = ''bR'', moveID = - 900 \<rparr>],
           back_rank_capture_position)"
proof -
  have w: "whiteToMove back_rank_capture_position"
    by (simp add: back_rank_capture_position_def)
  have p: "pins back_rank_capture_position = []"
    by (simp add: back_rank_capture_position_def)
  have m: "back_rank_moves (board back_rank_capture_position) False None 0 =
             [\<lparr> startRow = 0, startCol = 0, endRow = - 1, endCol = 0,
                 pieceMoved = ''wp'', pieceCaptured = ''--'', moveID = - 1000 \<rparr>,
              \<lparr> startRow = 0, startCol = 0, endRow = - 1, endCol = 1,
                 pieceMoved = ''wp'', pieceCaptured = ''bR'', moveID = - 900 \<rparr>]"
    by (simp add: back_rank_moves_def back_rank_move_def back_rank_capture_position_def)
  have e: "back_rank_capture_position \<lparr> pins := [] \<rparr> = back_rank_capture_position"
    by (simp add: back_rank_capture_position_def)
  from getPawnMoves_row0_reads_row7 [OF wf_back_rank_capture_position w, of 0 "[]"]
  show ?thesis by (simp add: p pin_indices_def m e)
qed

lemma wf_back_rank_pawn_position: "wf_board (board back_rank_pawn_position)"
  by (simp add: wf_board_def back_rank_pawn_position_def)

text \<open>In \<open>back_rank_pawn_position\<close> the pawn on \<open>(0, 0)\<close> gets the one move to row \<open>-1\<close>,
  which captures what stands on \<open>(7, 0)\<close>.\<close>

lemma back_rank_pawn_steps_to_row_7:
  "map_option (map (\<lambda>m. (endRow m, endCol m, pieceCaptured m)) \<circ> fst)
     (getPawnMoves back_rank_pawn_position 0 0 []) = Some [(- 1, 0, ''--'')]"
  by code_simp

subsection \<open>The pins list\<close>

lemma pin_loop_Nil: "pin_loop [] r c (pin_indices []) = (False, None, [])"
  by (simp add: pin_indices_def)

lemma rook_pin_loop_Nil: "rook_pin_loop b [] r c (pin_indices []) = Some (False, None, [])"
  by (simp add: pin_indices_def)

lemma getPawnMoves_no_pins:
  "getPawnMoves s r c moves = Some (ms, s') \<Longrightarrow> pins s = [] \<Longrightarrow> pins s' = []"
  by (auto simp: getPawnMoves_def pin_loop_Nil bind_eq_Some_conv)

lemma getRookMoves_no_pins:
  "getRookMoves s r c moves = Some (ms, s') \<Longrightarrow> pins s = [] \<Longrightarrow> pins s' = []"
  by (auto simp: getRookMoves_def rook_pin_loop_Nil bind_eq_Some_conv)

lemma getBishopMoves_no_pins:
  "getBishopMoves s r c moves = Some (ms, s') \<Longrightarrow> pins s = [] \<Longrightarrow> pins s' = []"
  by (auto simp: getBishopMoves_def pin_loop_Nil bind_eq_Some_conv)

lemma getKnightMoves_no_pins:
  "getKnightMoves s r c moves = Some (ms, s') \<Longrightarrow> pins s = [] \<Longrightarrow> pins s' = []"
  by (auto simp: getKnightMoves_def pin_loop_Nil bind_eq_Some_conv)

lemma getQueenMoves_no_pins:
  assumes "getQueenMoves s r c moves = Some (ms, s')" and "pins s = []"
  shows "pins s' = []"
proof -
  from assms(1) obtain m1 s1 where
    a: "getRookMoves s r c moves = Some (m1, s1)" and b: "getBishopMoves s1 r c m1 = Some (ms, s')"
    by (auto simp: getQueenMoves_def bind_eq_Some_conv)
  from getRookMoves_no_pins [OF a assms(2)] have "pins s1 = []" .
  then show ?thesis by (rule getBishopMoves_no_pins [OF b])
qed

text \<open>
  The list that checksForPinsAndChecks computes is always empty (see
  \<open>checksForPinsAndChecks_pins\<close>), so on it the removal loops of the generators find
  nothing to remove.
\<close>

lemma generators_keep_computed_pins:
  assumes "checksForPinsAndChecks s0 = Some (ic, ps, cs)" and "pins s = ps"
    and "gen \<in> {getPawnMoves, getRookMoves, getKnightMoves, getBishopMoves, getQueenMoves}"
    and "gen s r c moves = Some (ms, s')"
  shows "pins s' = ps"
proof -
  from assms(1) have ps: "ps = []" by (rule checksForPinsAndChecks_pins)
  with assms(2) have e: "pins s = []" by simp
  from assms(3) consider "gen = getPawnMoves" | "gen = getRookMoves" | "gen = getKnightMoves"
    | "gen = getBishopMoves" | "gen = getQueenMoves" by blast
  then have "pins s' = []"
  proof cases
    case 1 with assms(4) e show ?thesis by (simp add: getPawnMoves_no_pins)
  next
    case 2 with assms(4) e show ?thesis by (simp add: getRookMoves_no_pins)
  next
    case 3 with assms(4) e show ?thesis by (simp add: getKnightMoves_no_pins)
  next
    case 4 with assms(4) e show ?thesis by (simp add: getBishopMoves_no_pins)
  next
    case 5 with assms(4) e show ?thesis by (simp add: getQueenMoves_no_pins)
  qed
  with ps show ?thesis by simp
qed

lemma generators_keep_computed_pins_example:
  "checksForPinsAndChecks pinned_knight_position = Some (False, [], []) \<and>
   pins pinned_knight_position = [] \<and>
   map_option (pins \<circ> snd) (getKnightMoves pinned_knight_position 5 2 []) = Some []"
proof -
  have d: "checksForPinsAndChecks pinned_knight_position = Some (False, [], [])"
    by code_simp
  have p: "pins pinned_knight_position = []"
    by (simp add: pinned_knight_position_def)
  have "getKnightMoves pinned_knight_position 5 2 [] \<noteq> None"
    by code_simp
  then obtain ms s' where g: "getKnightMoves pinned_knight_position 5 2 [] = Some (ms, s')"
    by auto
  have "getKnightMoves \<in> {getPawnMoves, getRookMoves, getKnightMoves, getBishopMoves, getQueenMoves}"
    by simp
  from generators_keep_computed_pins
         [where gen = getKnightMoves and s = pinned_knight_position, OF d p this g]
  have "pins s' = []" .
  with d p g show ?thesis by simp
qed















subsection \<open>getKingMoves and the king cache\<close>

lemma set_king_twice: "set_king a sq (set_king a sq' s) = set_king a sq s"
  by (simp add: set_king_def)

lemma set_king_board: "board (set_king a sq s) = board s"
  by (simp add: set_king_def)

lemma set_king_frame: "frame s (set_king a sq s)"
  by (simp add: set_king_def frame_def)

lemma set_king_own: "set_king (allyColor_of s) (kingLocation s) s = s"
  by (simp add: set_king_def allyColor_of_def kingLocation_def)

lemma king_step_state:
  assumes "king_step a r c i (moves, s) = Some (ms, s')"
  shows "s' = s \<or> s' = set_king a (r, c) s"
  using assms
  by (auto simp: king_step_def Let_def bind_eq_Some_conv set_king_twice split: if_splits)

lemma king_step_from:
  assumes "king_step a r c i (moves, s) = Some (ms, s')"
  shows "set ms \<subseteq> set moves \<union> Collect (from_square (board s) (r, c))"
  using assms
  by (auto simp: king_step_def Let_def bind_eq_Some_conv set_king_board split: if_splits
           dest!: append_move_from)

lemma getKingMoves_state:
  assumes "getKingMoves s r c moves = Some (ms, s')"
  shows "s' = s \<or> s' = set_king (allyColor_of s) (r, c) s"
proof -
  have "(\<lambda>st. snd st = s \<or> snd st = set_king (allyColor_of s) (r, c) s) (ms, s')"
  proof (rule for_each_inv [OF assms [unfolded getKingMoves_def]])
    show "snd (moves, s) = s \<or> snd (moves, s) = set_king (allyColor_of s) (r, c) s" by simp
  next
    fix x a a'
    assume p: "snd a = s \<or> snd a = set_king (allyColor_of s) (r, c) s"
      and st: "king_step (allyColor_of s) r c x a = Some a'"
    obtain m1 s1 where a: "a = (m1, s1)" by (cases a)
    obtain m2 s2 where a': "a' = (m2, s2)" by (cases a')
    from king_step_state [OF st [unfolded a a']] p a a'
    show "snd a' = s \<or> snd a' = set_king (allyColor_of s) (r, c) s"
      by (auto simp: set_king_twice)
  qed
  then show ?thesis by simp
qed

lemma getKingMoves_from:
  assumes "getKingMoves s r c moves = Some (ms, s')"
  shows "set ms \<subseteq> set moves \<union> Collect (from_square (board s) (r, c))"
proof -
  have "(\<lambda>st. board (snd st) = board s \<and>
              set (fst st) \<subseteq> set moves \<union> Collect (from_square (board s) (r, c))) (ms, s')"
  proof (rule for_each_inv [OF assms [unfolded getKingMoves_def]])
    show "board (snd (moves, s)) = board s \<and>
          set (fst (moves, s)) \<subseteq> set moves \<union> Collect (from_square (board s) (r, c))" by simp
  next
    fix x a a'
    assume p: "board (snd a) = board s \<and>
               set (fst a) \<subseteq> set moves \<union> Collect (from_square (board s) (r, c))"
      and st: "king_step (allyColor_of s) r c x a = Some a'"
    obtain m1 s1 where a: "a = (m1, s1)" by (cases a)
    obtain m2 s2 where a': "a' = (m2, s2)" by (cases a')
    from king_step_state [OF st [unfolded a a']] have "board s2 = board s1"
      by (auto simp: set_king_board)
    moreover from king_step_from [OF st [unfolded a a']]
    have "set m2 \<subseteq> set m1 \<union> Collect (from_square (board s1) (r, c))" .
    ultimately show "board (snd a') = board s \<and>
               set (fst a') \<subseteq> set moves \<union> Collect (from_square (board s) (r, c))"
      using p a a' by auto
  qed
  then show ?thesis by simp
qed

text \<open>
  When getKingMoves is called for the square \<open>(r, c)\<close> that is the cached king square of
  the side to move, assigning \<open>(r, c)\<close> does restore the cache: both king caches have their
  values of entry when the call returns.
\<close>

lemma getKingMoves_restores_cache:
  assumes "kingLocation s = (r, c)" and "getKingMoves s r c moves = Some (ms, s')"
  shows "whiteKingLocation s' = whiteKingLocation s \<and> blackKingLocation s' = blackKingLocation s"
proof -
  from getKingMoves_state [OF assms(2)] assms(1) set_king_own [of s]
  have "s' = s" by auto
  then show ?thesis by simp
qed

lemma getKingMoves_cached_square_example:
  "kingLocation pinned_knight_position = (7, 4) \<and>
   map_option (\<lambda>(ms, s'). (length ms, whiteKingLocation s', blackKingLocation s'))
     (getKingMoves pinned_knight_position 7 4 []) = Some (1, (7, 4), (0, 4))"
proof -
  have k: "kingLocation pinned_knight_position = (7, 4)"
    by (simp add: kingLocation_def pinned_knight_position_def)
  have e: "map_option (length \<circ> fst) (getKingMoves pinned_knight_position 7 4 []) = Some 1"
    by code_simp
  then obtain ms s' where g: "getKingMoves pinned_knight_position 7 4 [] = Some (ms, s')"
    by (cases "getKingMoves pinned_knight_position 7 4 []") auto
  from getKingMoves_restores_cache [OF k g]
  have "whiteKingLocation s' = (7, 4) \<and> blackKingLocation s' = (0, 4)"
    by (simp add: pinned_knight_position_def)
  with k e g show ?thesis by simp
qed


subsection \<open>The detector's verdict and double check\<close>

lemma Move_init_fields:
  assumes "Move_init a e b = Some m"
  shows "startRow m = fst a" "startCol m = snd a" "endRow m = fst e" "endCol m = snd e"
    "board_get b (fst a) (snd a) = Some (pieceMoved m)"
    "board_get b (fst e) (snd e) = Some (pieceCaptured m)"
  using assms by (auto simp: Move_init_def bind_eq_Some_conv)

lemma ray_loop_result:
  "ray_loop b ec ac sr sc j d is pp acc = Some acc' \<Longrightarrow>
     acc' = acc \<or>
     (\<exists>i \<in> set is. acc' = (True, fst (snd acc),
                           snd (snd acc) @ [(sr + fst d * i, sc + snd d * i, fst d, snd d)]))"
proof (induction "is" arbitrary: pp acc)
  case Nil
  then show ?case by simp
next
  case (Cons i rest)
  have step: "acc' = acc \<or>
      acc' = (True, fst (snd acc), snd (snd acc) @ [(sr + fst d * i, sc + snd d * i, fst d, snd d)]) \<or>
      (\<exists>pp'. ray_loop b ec ac sr sc j d rest pp' acc = Some acc')"
    using Cons.prems
    by (cases acc) (auto simp: Let_def bind_eq_Some_conv split: if_splits)
  then show ?case
  proof (elim disjE exE)
    fix pp' assume "ray_loop b ec ac sr sc j d rest pp' acc = Some acc'"
    from Cons.IH [OF this] show ?thesis by auto
  qed auto
qed

lemma knight_check_result:
  "knight_check b ec sr sc m acc = Some acc' \<Longrightarrow>
     acc' = acc \<or>
     acc' = (True, fst (snd acc), snd (snd acc) @ [(sr + fst m, sc + snd m, fst m, snd m)])"
  by (cases acc) (auto simp: knight_check_def Let_def bind_eq_Some_conv split: if_splits)

lemma on_attack_ray_self:
  "k \<in> set [1..7] \<Longrightarrow> on_attack_ray (sr, sc) (sr + d0 * k, sc + d1 * k, d0, d1) (sr + d0 * k, sc + d1 * k)"
  unfolding on_attack_ray_def by (auto intro!: bexI [of _ k])

lemma det_ok_append:
  assumes "det_ok (sr, sc) acc" "k \<in> set [1..7]"
  shows "det_ok (sr, sc) (True, fst (snd acc), snd (snd acc) @ [(sr + d0 * k, sc + d1 * k, d0, d1)])"
  using assms(1) on_attack_ray_self [OF assms(2), where sr = sr and sc = sc]
  by (auto simp: det_ok_def)

lemma ray_loop_det_ok:
  assumes "ray_loop b ec ac sr sc j d is pp acc = Some acc'" "det_ok (sr, sc) acc"
    and "set is \<subseteq> set [1..7]"
  shows "det_ok (sr, sc) acc'"
proof -
  from ray_loop_result [OF assms(1)]
  consider "acc' = acc"
    | i where "i \<in> set is"
        "acc' = (True, fst (snd acc), snd (snd acc) @ [(sr + fst d * i, sc + snd d * i, fst d, snd d)])"
    by blast
  then show ?thesis
  proof cases
    case 1
    with assms(2) show ?thesis by simp
  next
    case 2
    from 2(1) assms(3) have "i \<in> set [1..7]" by blast
    from det_ok_append [OF assms(2) this, of "fst d" "snd d"] 2(2) show ?thesis by simp
  qed
qed

lemma knight_check_det_ok:
  assumes "knight_check b ec sr sc m acc = Some acc'" "det_ok (sr, sc) acc"
  shows "det_ok (sr, sc) acc'"
  using knight_check_result [OF assms(1)] assms(2) det_ok_append [OF assms(2), of 1 "fst m" "snd m"]
  by auto

lemma checksForPinsAndChecks_det_ok:
  assumes "checksForPinsAndChecks s = Some (ic, ps, cs)"
  shows "det_ok (kingLocation s) (ic, ps, cs)"
proof -
  obtain sr sc where kl: "kingLocation s = (sr, sc)" by (cases "kingLocation s")
  from assms obtain acc where
    a: "for_each (\<lambda>j acc. do { d \<leftarrow> getitem directions j;
                                ray_loop (board s) (enemyColor_of s) (allyColor_of s)
                                  sr sc j d [1..7] None acc })
          [0..7] (False, [], []) = Some acc"
    and k: "for_each (knight_check (board s) (enemyColor_of s) sr sc)
              knightMoves acc = Some (ic, ps, cs)"
    by (auto simp: checksForPinsAndChecks_def Let_def bind_eq_Some_conv kl)
  have "det_ok (sr, sc) acc"
    by (rule for_each_inv [OF a, where P = "det_ok (sr, sc)"])
       (auto simp: bind_eq_Some_conv det_ok_def dest: ray_loop_det_ok [unfolded det_ok_def])
  then have "det_ok (sr, sc) (ic, ps, cs)"
    by (intro for_each_inv [OF k, where P = "det_ok (sr, sc)"])
       (auto dest: knight_check_det_ok)
  with kl show ?thesis by simp
qed

lemma checksForPinsAndChecks_inCheck:
  assumes "checksForPinsAndChecks s = Some (ic, ps, cs)"
  shows "ic \<longleftrightarrow> cs \<noteq> []"
  using checksForPinsAndChecks_det_ok [OF assms] by (simp add: det_ok_def)

lemma kingLocation_query [simp]:
  "kingLocation (s \<lparr> inCheck := a, pins := b, checks := c \<rparr>) = kingLocation s"
  by (simp add: kingLocation_def)

text \<open>
  With two or more checks getValidMoves calls getKingMoves only, on the cached square of
  the side to move. So every returned move starts on that square, and moves the king
  where the king stands there.
\<close>

lemma double_check_only_king_moves:
  assumes det: "checksForPinsAndChecks s = Some (ic, ps, cs)" and two: "2 \<le> length cs"
    and king: "board_get (board s) (fst (kingLocation s)) (snd (kingLocation s)) = Some (own_king s)"
    and vm: "getValidMoves s = Some (ms, s1)"
  shows "\<forall>m \<in> set ms. pieceMoved m = own_king s \<and> (startRow m, startCol m) = kingLocation s"
proof
  fix m assume m: "m \<in> set ms"
  define s' where "s' = s \<lparr> inCheck := ic, pins := ps, checks := cs \<rparr>"
  from two have "cs \<noteq> []" by auto
  with checksForPinsAndChecks_inCheck [OF det] have ic by simp
  have b: "board s' = board s"
    by (simp add: s'_def)
  from vm det \<open>ic\<close> two
  have g: "getKingMoves s' (fst (kingLocation s)) (snd (kingLocation s)) [] = Some (ms, s1)"
    by (simp add: getValidMoves_def Let_def s'_def)
  from getKingMoves_from [OF g] m b
  have "from_square (board s) (fst (kingLocation s), snd (kingLocation s)) m" by auto
  then obtain e where "Move_init (fst (kingLocation s), snd (kingLocation s)) e (board s) = Some m"
    by (auto simp: from_square_def)
  from Move_init_fields [OF this] king
  show "pieceMoved m = own_king s \<and> (startRow m, startCol m) = kingLocation s"
    by simp
qed

lemma double_check_position_king_moves:
  "checksForPinsAndChecks double_check_position = Some (True, [], [(3, 4, -1, 0), (5, 3, -2, -1)]) \<and>
   (\<exists>ms s1. getValidMoves double_check_position = Some (ms, s1) \<and> length ms = 3 \<and>
      (\<forall>m \<in> set ms. pieceMoved m = ''wK'' \<and> (startRow m, startCol m) = (7, 4)))"
proof -
  have det: "checksForPinsAndChecks double_check_position
               = Some (True, [], [(3, 4, -1, 0), (5, 3, -2, -1)])"
    by code_simp
  have two: "2 \<le> length [(3, 4, -1, 0), (5, 3, -2, -1) :: ray]" by simp
  have king: "board_get (board double_check_position) (fst (kingLocation double_check_position))
                (snd (kingLocation double_check_position)) = Some (own_king double_check_position)"
    by code_simp
  have len: "map_option (length \<circ> fst) (getValidMoves double_check_position) = Some 3"
    by code_simp
  then obtain ms s1 where vm: "getValidMoves double_check_position = Some (ms, s1)"
    by (cases "getValidMoves double_check_position") auto
  have ok: "own_king double_check_position = ''wK''" "kingLocation double_check_position = (7, 4)"
    by (simp_all add: own_king_def allyColor_of_def kingLocation_def double_check_position_def)
  from double_check_only_king_moves [OF det two king vm] ok
  have "\<forall>m \<in> set ms. pieceMoved m = ''wK'' \<and> (startRow m, startCol m) = (7, 4)" by simp
  with det vm len show ?thesis by auto
qed

lemma plays_captured_king:
  "plays GameState_init captured_king_plies = Some captured_king_position"
  by code_simp

lemma reachable_captured_king: "reachable captured_king_position"
  using plays_reachable [OF reachable.start plays_captured_king] .

text \<open>
  Claim C3, evaluated where the code departs from it. \<open>captured_king_position\<close> is reached
  by fourteen plies, each one returned by getValidMoves. White is to move, the detector
  reports two checks, by the queen on \<open>(5, 2)\<close> and the knight on \<open>(6, 2)\<close>, and getValidMoves
  returns one move, from \<open>(7, 4)\<close> to \<open>(7, 3)\<close>, whose pieceMoved is the empty square
  \<open>''--''\<close>, not the white king.
\<close>

theorem double_check_moves_empty_square:
  "reachable captured_king_position \<and>
   whiteToMove captured_king_position \<and>
   checksForPinsAndChecks captured_king_position
     = Some (True, [], [(5, 2, -1, -1), (6, 2, -1, -2)]) \<and>
   map_option (map (\<lambda>m. ((startRow m, startCol m), (endRow m, endCol m), pieceMoved m)) \<circ> fst)
     (getValidMoves captured_king_position) = Some [((7, 4), (7, 3), ''--'')]"
proof -
  have w: "whiteToMove captured_king_position"
    by (simp add: captured_king_position_def)
  have det: "checksForPinsAndChecks captured_king_position
               = Some (True, [], [(5, 2, -1, -1), (6, 2, -1, -2)])"
    by code_simp
  have vm: "map_option (map (\<lambda>m. ((startRow m, startCol m), (endRow m, endCol m), pieceMoved m)) \<circ> fst)
              (getValidMoves captured_king_position) = Some [((7, 4), (7, 3), ''--'')]"
    by code_simp
  from reachable_captured_king w det vm show ?thesis by blast
qed

subsection \<open>A single check: the squares that answer it\<close>

lemma moveFunction_cases:
  assumes "moveFunction p = Some gen"
  shows "gen = getPawnMoves \<or> gen = getRookMoves \<or> gen = getKnightMoves \<or>
         gen = getBishopMoves \<or> gen = getQueenMoves \<or> gen = getKingMoves"
  using assms by (auto simp: moveFunction_def dict_of_def split: if_splits)

lemma pins_update_board: "s' = s \<lparr> pins := p \<rparr> \<Longrightarrow> board s' = board s \<and> checks s' = checks s"
  by simp

lemma generator_board_checks:
  assumes "moveFunction p = Some gen" and g: "gen s r c moves = Some (ms, s')"
  shows "board s' = board s \<and> checks s' = checks s"
  using moveFunction_cases [OF assms(1)]
proof (elim disjE)
  assume "gen = getPawnMoves"
  with g have "getPawnMoves s r c moves = Some (ms, s')" by simp
  from pins_update_board [OF getPawnMoves_state [OF this]] show ?thesis .
next
  assume "gen = getRookMoves"
  with g have "getRookMoves s r c moves = Some (ms, s')" by simp
  from pins_update_board [OF getRookMoves_state [OF this]] show ?thesis .
next
  assume "gen = getKnightMoves"
  with g have "getKnightMoves s r c moves = Some (ms, s')" by simp
  from pins_update_board [OF getKnightMoves_state [OF this]] show ?thesis .
next
  assume "gen = getBishopMoves"
  with g have "getBishopMoves s r c moves = Some (ms, s')" by simp
  from pins_update_board [OF getBishopMoves_state [OF this]] show ?thesis .
next
  assume "gen = getQueenMoves"
  with g have "getQueenMoves s r c moves = Some (ms, s')" by simp
  from pins_update_board [OF getQueenMoves_state [OF this]] show ?thesis .
next
  assume "gen = getKingMoves"
  with g have "s' = s \<or> s' = set_king (allyColor_of s) (r, c) s"
    by (auto dest: getKingMoves_state)
  then show ?thesis by (auto simp: set_king_def)
qed

lemma square_moves_board_checks:
  assumes "square_moves r c (moves, s) = Some (ms, s')"
  shows "board s' = board s \<and> checks s' = checks s"
  using assms
  by (auto simp: square_moves_def bind_eq_Some_conv split: if_splits dest: generator_board_checks)

lemma row_moves_board_checks:
  assumes "row_moves r (moves, s) = Some (ms, s')"
  shows "board s' = board s \<and> checks s' = checks s"
proof -
  from assms obtain row :: "string list" where
    f: "for_each (square_moves r) [0 .. int (length row) - 1] (moves, s) = Some (ms, s')"
    by (auto simp: row_moves_def bind_eq_Some_conv)
  have "(\<lambda>st. board (snd st) = board s \<and> checks (snd st) = checks s) (ms, s')"
    by (rule for_each_inv [OF f]) (auto dest: square_moves_board_checks)
  then show ?thesis by simp
qed

lemma getAllPossibleMoves_board_checks:
  assumes "getAllPossibleMoves s = Some (ms, s')"
  shows "board s' = board s \<and> checks s' = checks s"
proof -
  have "(\<lambda>st. board (snd st) = board s \<and> checks (snd st) = checks s) (ms, s')"
    by (rule for_each_inv [OF assms [unfolded getAllPossibleMoves_def]])
       (auto dest: row_moves_board_checks)
  then show ?thesis by simp
qed


lemma valid_squares_loop_set:
  assumes "sorted is" and "\<exists>k \<in> set is. (cr, cc) = (kr + d0 * k, kc + d1 * k)"
    and "sq \<in> set (valid_squares_loop kr kc (cr, cc, d0, d1) is vs)"
  shows "sq \<in> set vs \<or>
         (\<exists>i \<in> set is. \<exists>k \<in> set is. i \<le> k \<and> (cr, cc) = (kr + d0 * k, kc + d1 * k) \<and>
                                    sq = (kr + d0 * i, kc + d1 * i))"
  using assms
proof (induction "is" arbitrary: vs)
  case Nil
  then show ?case by simp
next
  case (Cons i rest)
  show ?case
  proof (cases "(kr + d0 * i, kc + d1 * i) = (cr, cc)")
    case True
    with Cons.prems(3) have "sq \<in> set vs \<or> sq = (kr + d0 * i, kc + d1 * i)"
      by (auto simp: Let_def)
    with True show ?thesis by auto
  next
    case False
    with Cons.prems(2) obtain k where k: "k \<in> set rest" "(cr, cc) = (kr + d0 * k, kc + d1 * k)"
      by auto
    from Cons.prems(1) k(1) have ik: "i \<le> k" by auto
    from False Cons.prems(3)
    have "sq \<in> set (valid_squares_loop kr kc (cr, cc, d0, d1) rest (vs @ [(kr + d0 * i, kc + d1 * i)]))"
      by (auto simp: Let_def)
    from Cons.IH [OF _ _ this] Cons.prems(1) k
    have "sq \<in> set (vs @ [(kr + d0 * i, kc + d1 * i)]) \<or>
          (\<exists>i \<in> set rest. \<exists>k \<in> set rest. i \<le> k \<and> (cr, cc) = (kr + d0 * k, kc + d1 * k) \<and>
                                    sq = (kr + d0 * i, kc + d1 * i))"
      by auto
    then show ?thesis
    proof (elim disjE)
      assume "sq \<in> set (vs @ [(kr + d0 * i, kc + d1 * i)])"
      with k ik show ?thesis by auto
    next
      assume "\<exists>i \<in> set rest. \<exists>k \<in> set rest. i \<le> k \<and> (cr, cc) = (kr + d0 * k, kc + d1 * k) \<and>
                                    sq = (kr + d0 * i, kc + d1 * i)"
      then show ?thesis by auto
    qed
  qed
qed

lemma valid_squares_on_attack_ray:
  assumes hit: "on_attack_ray (kr, kc) (cr, cc, d0, d1) (cr, cc)"
    and sq: "sq \<in> set (valid_squares_loop kr kc (cr, cc, d0, d1) [1..7] [])"
  shows "on_attack_ray (kr, kc) (cr, cc, d0, d1) sq"
proof -
  from hit have "\<exists>k \<in> set [1..7]. (cr, cc) = (kr + d0 * k, kc + d1 * k)"
    unfolding on_attack_ray_def by auto
  from valid_squares_loop_set [OF _ this sq]
  obtain i k where i: "i \<in> set [1..7]" and k: "k \<in> set [1..7]" and ik: "i \<le> k"
    and c: "(cr, cc) = (kr + d0 * k, kc + d1 * k)" and s: "sq = (kr + d0 * i, kc + d1 * i)"
    by auto
  from k ik have "k \<in> set [i..7]" by simp
  with i c s show ?thesis
    unfolding on_attack_ray_def prod.case fst_conv snd_conv by blast
qed

lemma Move_eq_refl: "Move_eq x x"
  by (simp add: Move_eq_def)

lemma list_remove_nth:
  assumes "list_remove xs (xs ! n) = Some ys" and "n < length xs"
  shows "Suc (length ys) = length xs \<and> (\<forall>p. n \<le> p \<and> p < length ys \<longrightarrow> ys ! p = xs ! Suc p)"
  using assms
proof (induction xs arbitrary: n ys)
  case Nil
  then show ?case by simp
next
  case (Cons y xs)
  show ?case
  proof (cases "Move_eq y ((y # xs) ! n)")
    case True
    with Cons.prems show ?thesis by simp
  next
    case False
    then obtain n' where n: "n = Suc n'"
      by (cases n) (auto simp: Move_eq_refl)
    with False Cons.prems obtain ys' where
      r: "list_remove xs (xs ! n') = Some ys'" and ys: "ys = y # ys'" and l: "n' < length xs"
      by (auto simp: bind_eq_Some_conv)
    from Cons.IH [OF r l]
    have ih: "Suc (length ys') = length xs" "\<And>p. n' \<le> p \<Longrightarrow> p < length ys' \<Longrightarrow> ys' ! p = xs ! Suc p"
      by auto
    show ?thesis
    proof (intro conjI allI impI)
      show "Suc (length ys) = length (y # xs)" using ih(1) ys by simp
    next
      fix p assume p: "n \<le> p \<and> p < length ys"
      with n obtain p' where p': "p = Suc p'" by (cases p) auto
      with p n ys have "n' \<le> p'" "p' < length ys'" by auto
      from ih(2) [OF this] show "ys ! p = (y # xs) ! Suc p" by (simp add: ys p')
    qed
  qed
qed


lemma getitem_nonneg:
  assumes "getitem xs k = Some v" and "0 \<le> k"
  shows "nat k < length xs \<and> v = xs ! nat k"
  using assms by (auto simp: getitem_Some_iff py_index_def split: if_splits)

lemma remove_loop_inv:
  assumes "remove_loop vs (rev [0..k]) moves = Some ms"
    and "\<forall>p. k < int p \<and> p < length moves \<longrightarrow> G (moves ! p)"
    and G: "\<And>m kind. getitem (pieceMoved m) 1 = Some kind \<Longrightarrow>
              kind = CHR ''K'' \<or> (endRow m, endCol m) \<in> set vs \<Longrightarrow> G m"
  shows "\<forall>m \<in> set ms. G m"
  using assms(1,2)
proof (induction "nat (k + 1)" arbitrary: k moves)
  case 0
  then have "k < 0" by simp
  with 0 have "ms = moves" "\<forall>p. p < length moves \<longrightarrow> G (moves ! p)" by auto
  then show ?case by (auto simp: in_set_conv_nth)
next
  case (Suc n)
  then have k: "0 \<le> k" and n: "n = nat (k - 1 + 1)" by auto
  from k have up: "rev [0..k] = k # rev [0..k - 1]" by (simp add: upto_rec2)
  from Suc.prems(1) [unfolded up] obtain mv kind where
    mv: "getitem moves k = Some mv" and kind: "getitem (pieceMoved mv) 1 = Some kind"
    and rest: "(kind \<noteq> CHR ''K'' \<and> (endRow mv, endCol mv) \<notin> set vs \<and>
                (\<exists>moves'. list_remove moves mv = Some moves' \<and>
                           remove_loop vs (rev [0..k - 1]) moves' = Some ms)) \<or>
               ((kind = CHR ''K'' \<or> (endRow mv, endCol mv) \<in> set vs) \<and>
                remove_loop vs (rev [0..k - 1]) moves = Some ms)"
    by (auto simp: bind_eq_Some_conv split: if_splits)
  from getitem_nonneg [OF mv k] have kl: "nat k < length moves" and mvk: "mv = moves ! nat k"
    by auto
  from rest show ?case
  proof (rule disjE)
    assume "kind \<noteq> CHR ''K'' \<and> (endRow mv, endCol mv) \<notin> set vs \<and>
                (\<exists>moves'. list_remove moves mv = Some moves' \<and>
                           remove_loop vs (rev [0..k - 1]) moves' = Some ms)"
    then obtain moves' where r: "list_remove moves mv = Some moves'"
      and l: "remove_loop vs (rev [0..k - 1]) moves' = Some ms"
      by blast
    from list_remove_nth [OF r [unfolded mvk] kl]
    have len: "Suc (length moves') = length moves"
      and nth: "\<And>p. nat k \<le> p \<Longrightarrow> p < length moves' \<Longrightarrow> moves' ! p = moves ! Suc p"
      by auto
    have "\<forall>p. k - 1 < int p \<and> p < length moves' \<longrightarrow> G (moves' ! p)"
    proof (intro allI impI)
      fix p assume p: "k - 1 < int p \<and> p < length moves'"
      with k have "nat k \<le> p" by auto
      from nth [OF this] p have e: "moves' ! p = moves ! Suc p" by simp
      from p len k have "k < int (Suc p) \<and> Suc p < length moves" by auto
      with Suc.prems(2) e show "G (moves' ! p)" by auto
    qed
    from Suc.hyps(1) [OF n l this] show ?thesis .
  next
    assume "(kind = CHR ''K'' \<or> (endRow mv, endCol mv) \<in> set vs) \<and>
                remove_loop vs (rev [0..k - 1]) moves = Some ms"
    then have g: "kind = CHR ''K'' \<or> (endRow mv, endCol mv) \<in> set vs"
      and l: "remove_loop vs (rev [0..k - 1]) moves = Some ms"
      by blast+
    from G [OF kind g] have gm: "G mv" .
    have "\<forall>p. k - 1 < int p \<and> p < length moves \<longrightarrow> G (moves ! p)"
    proof (intro allI impI)
      fix p assume p: "k - 1 < int p \<and> p < length moves"
      show "G (moves ! p)"
      proof (cases "p = nat k")
        case True
        with gm mvk show ?thesis by simp
      next
        case False
        with p k have "k < int p \<and> p < length moves" by auto
        with Suc.prems(2) show ?thesis by auto
      qed
    qed
    from Suc.hyps(1) [OF n l this] show ?thesis .
  qed
qed

lemma remove_loop_survivors:
  assumes "remove_loop vs (rev [0 .. int (length moves) - 1]) moves = Some ms" and "m \<in> set ms"
  shows "getitem (pieceMoved m) 1 = Some CHR ''K'' \<or> (endRow m, endCol m) \<in> set vs"
proof -
  have "\<forall>m \<in> set ms. getitem (pieceMoved m) 1 = Some CHR ''K'' \<or> (endRow m, endCol m) \<in> set vs"
    by (rule remove_loop_inv [OF assms(1)]) auto
  with assms(2) show ?thesis by blast
qed


text \<open>
  Claim C4. When checksForPinsAndChecks reports exactly one check \<open>chk\<close>, every move
  returned by getValidMoves whose pieceMoved is not a king (its second character is not
  \<open>K\<close>) ends on a square of the line from the king's square towards the checking piece,
  that piece's square included; and when the checking piece is a knight, it ends on the
  knight's square.
\<close>

theorem single_check_moves_answer_check:
  assumes det: "checksForPinsAndChecks s = Some (ic, ps, [chk])"
    and vm: "getValidMoves s = Some (ms, s1)"
    and m: "m \<in> set ms" and nk: "getitem (pieceMoved m) 1 \<noteq> Some CHR ''K''"
  shows "on_attack_ray (kingLocation s) chk (endRow m, endCol m) \<and>
         (checker_kind s chk = Some CHR ''N'' \<longrightarrow> (endRow m, endCol m) = (fst chk, fst (snd chk)))"
proof -
  define s' where "s' = s \<lparr> inCheck := ic, pins := ps, checks := [chk] \<rparr>"
  obtain cr cc d0 d1 where chk: "chk = (cr, cc, d0, d1)" by (cases chk)
  obtain kr kc where kl: "kingLocation s = (kr, kc)" by (cases "kingLocation s")
  from checksForPinsAndChecks_inCheck [OF det] have ic by simp
  from checksForPinsAndChecks_det_ok [OF det]
  have hit: "on_attack_ray (kr, kc) (cr, cc, d0, d1) (cr, cc)"
    by (simp add: det_ok_def chk kl)
  from vm det \<open>ic\<close> obtain moves check pieceChecking kind where
    ga: "getAllPossibleMoves s' = Some (moves, s1)"
    and c0: "getitem (checks s1) 0 = Some check"
    and pc: "board_get (board s1) (fst check) (fst (snd check)) = Some pieceChecking"
    and kind: "getitem pieceChecking 1 = Some kind"
    and rl: "remove_loop (if kind = CHR ''N'' then [(fst check, fst (snd check))]
                          else valid_squares_loop kr kc check [1..7] [])
               (rev [0 .. int (length moves) - 1]) moves = Some ms"
    by (auto simp: getValidMoves_def Let_def s'_def kl bind_eq_Some_conv split: prod.splits
             cong: if_cong)
  from getAllPossibleMoves_board_checks [OF ga]
  have b: "board s1 = board s" and c: "checks s1 = [chk]" by (simp_all add: s'_def)
  from c0 c have check: "check = chk" by (simp add: getitem_def py_index_def)
  from pc kind have ck: "checker_kind s chk = Some kind"
    by (simp add: checker_kind_def check b)
  from remove_loop_survivors [OF rl m] nk
  have e: "(endRow m, endCol m) \<in> set (if kind = CHR ''N'' then [(cr, cc)]
                          else valid_squares_loop kr kc (cr, cc, d0, d1) [1..7] [])"
    by (simp add: check chk cong: if_cong)
  show ?thesis
  proof (cases "kind = CHR ''N''")
    case True
    with e have "(endRow m, endCol m) = (cr, cc)" by simp
    with hit show ?thesis by (simp add: chk kl)
  next
    case False
    with e have "(endRow m, endCol m) \<in> set (valid_squares_loop kr kc (cr, cc, d0, d1) [1..7] [])"
      by simp
    from valid_squares_on_attack_ray [OF hit this] False ck
    show ?thesis by (simp add: chk kl)
  qed
qed


theorem single_check_moves_answer_check_witness:
  "checksForPinsAndChecks single_check_position = Some (True, [], [(3, 4, -1, 0)]) \<and>
   map_option (\<lambda>(ms, s1). \<lparr> startRow = 5, startCol = 0, endRow = 5, endCol = 4,
        pieceMoved = ''wR'', pieceCaptured = ''--'', moveID = 5450 \<rparr> \<in> set ms)
     (getValidMoves single_check_position) = Some True \<and>
   on_attack_ray (7, 4) (3, 4, -1, 0) (5, 4) \<and>
   checksForPinsAndChecks knight_check_position = Some (True, [], [(5, 3, -2, -1)]) \<and>
   checker_kind knight_check_position (5, 3, -2, -1) = Some CHR ''N'' \<and>
   map_option (\<lambda>(ms, s1). \<lparr> startRow = 5, startCol = 0, endRow = 5, endCol = 3,
        pieceMoved = ''wR'', pieceCaptured = ''bN'', moveID = 5350 \<rparr> \<in> set ms)
     (getValidMoves knight_check_position) = Some True \<and>
   on_attack_ray (7, 4) (5, 3, -2, -1) (5, 3)"
proof -
  let ?m1 = "\<lparr> startRow = 5, startCol = 0, endRow = 5, endCol = 4,
        pieceMoved = ''wR'', pieceCaptured = ''--'', moveID = 5450 \<rparr>"
  let ?m2 = "\<lparr> startRow = 5, startCol = 0, endRow = 5, endCol = 3,
        pieceMoved = ''wR'', pieceCaptured = ''bN'', moveID = 5350 \<rparr>"
  have d1: "checksForPinsAndChecks single_check_position = Some (True, [], [(3, 4, -1, 0)])"
    by code_simp
  have d2: "checksForPinsAndChecks knight_check_position = Some (True, [], [(5, 3, -2, -1)])"
    by code_simp
  have l1: "map_option (\<lambda>(ms, s1). ?m1 \<in> set ms) (getValidMoves single_check_position) = Some True"
    by code_simp
  have l2: "map_option (\<lambda>(ms, s1). ?m2 \<in> set ms) (getValidMoves knight_check_position) = Some True"
    by code_simp
  have ck: "checker_kind knight_check_position (5, 3, -2, -1) = Some CHR ''N''"
    by code_simp
  from l1 obtain ms1 s1 where v1: "getValidMoves single_check_position = Some (ms1, s1)"
    and m1: "?m1 \<in> set ms1"
    by (cases "getValidMoves single_check_position") auto
  from l2 obtain ms2 s2 where v2: "getValidMoves knight_check_position = Some (ms2, s2)"
    and m2: "?m2 \<in> set ms2"
    by (cases "getValidMoves knight_check_position") auto
  have n1: "getitem (pieceMoved ?m1) 1 \<noteq> Some CHR ''K''"
    by (simp add: getitem_def py_index_def)
  have n2: "getitem (pieceMoved ?m2) 1 \<noteq> Some CHR ''K''"
    by (simp add: getitem_def py_index_def)
  have k1: "kingLocation single_check_position = (7, 4)"
    by (simp add: kingLocation_def single_check_position_def)
  have k2: "kingLocation knight_check_position = (7, 4)"
    by (simp add: kingLocation_def knight_check_position_def)
  from single_check_moves_answer_check [OF d1 v1 m1 n1] k1
  have r1: "on_attack_ray (7, 4) (3, 4, -1, 0) (5, 4)" by simp
  from single_check_moves_answer_check [OF d2 v2 m2 n2] k2 ck
  have r2: "on_attack_ray (7, 4) (5, 3, -2, -1) (5, 3)" by simp
  from d1 d2 l1 l2 ck r1 r2 show ?thesis by blast
qed

subsection \<open>makeMove followed by undoMove\<close>

text \<open>
  The board is a list of rows; \<open>board[r][c] = v\<close> replaces one cell. The king caches stay
  consistent with the board along a game (\<open>king_cache_ok\<close>): every cell is a two-character
  string and a king of either colour stands nowhere but on its cached square.
\<close>

lemma board_set_Some_iff:
  "board_set b r c v = Some b' \<longleftrightarrow>
     (\<exists>i j. py_index (length b) r = Some i \<and> py_index (length (b ! i)) c = Some j \<and>
            b' = b[i := (b ! i)[j := v]])"
  by (auto simp: board_set_def setitem_def bind_eq_Some_conv getitem_Some_iff)

lemma cell_update_shape:
  assumes "i < length b"
  shows "length (b[i := (b ! i)[j := v]]) = length b"
    and "length (b[i := (b ! i)[j := v]] ! i') = length (b ! i')"
  using assms by (simp_all add: nth_list_update)

lemma cell_update_nth:
  assumes "i < length b" "j < length (b ! i)" "i' < length b" "j' < length (b ! i')"
  shows "b[i := (b ! i)[j := v]] ! i' ! j' = (if i' = i \<and> j' = j then v else b ! i' ! j')"
  using assms by (auto simp: nth_list_update)

lemma board_eqI:
  assumes "length b' = length b"
    and "\<And>i. i < length b \<Longrightarrow> length (b' ! i) = length (b ! i)"
    and "\<And>i j. i < length b \<Longrightarrow> j < length (b ! i) \<Longrightarrow> b' ! i ! j = b ! i ! j"
  shows "b' = (b :: string list list)"
proof (rule nth_equalityI)
  show "length b' = length b" by fact
next
  fix i assume "i < length b'"
  with assms(1) have i: "i < length b" by simp
  show "b' ! i = b ! i"
  proof (rule nth_equalityI)
    show "length (b' ! i) = length (b ! i)" using assms(2) [OF i] .
  next
    fix j assume "j < length (b' ! i)"
    with assms(2) [OF i] have "j < length (b ! i)" by simp
    from assms(3) [OF i this] show "b' ! i ! j = b ! i ! j" .
  qed
qed

lemma board_round_trip:
  assumes i1: "i1 < length b" "j1 < length (b ! i1)" and i2: "i2 < length b" "j2 < length (b ! i2)"
  defines "b1 \<equiv> b[i1 := (b ! i1)[j1 := ''--'']]"
  defines "b2 \<equiv> b1[i2 := (b1 ! i2)[j2 := b ! i1 ! j1]]"
  defines "b3 \<equiv> b2[i1 := (b2 ! i1)[j1 := b ! i1 ! j1]]"
  defines "b4 \<equiv> b3[i2 := (b3 ! i2)[j2 := b ! i2 ! j2]]"
  shows "b4 = b"
proof -
  have l1: "length b1 = length b" "\<And>i. length (b1 ! i) = length (b ! i)"
    using i1 by (simp_all add: b1_def nth_list_update)
  have l2: "length b2 = length b" "\<And>i. length (b2 ! i) = length (b ! i)"
    using i2 l1 by (simp_all add: b2_def nth_list_update)
  have l3: "length b3 = length b" "\<And>i. length (b3 ! i) = length (b ! i)"
    using i1 l2 by (simp_all add: b3_def nth_list_update)
  have l4: "length b4 = length b" "\<And>i. length (b4 ! i) = length (b ! i)"
    using i2 l3 by (simp_all add: b4_def nth_list_update)
  show ?thesis
  proof (rule board_eqI)
    show "length b4 = length b" by (rule l4)
  next
    fix i assume "i < length b"
    show "length (b4 ! i) = length (b ! i)" by (rule l4)
  next
    fix i j assume i: "i < length b" and j: "j < length (b ! i)"
    have c1: "b1 ! i ! j = (if i = i1 \<and> j = j1 then ''--'' else b ! i ! j)"
      unfolding b1_def using cell_update_nth [OF i1 i j] .
    have c2: "b2 ! i ! j = (if i = i2 \<and> j = j2 then b ! i1 ! j1 else b1 ! i ! j)"
      unfolding b2_def using cell_update_nth [of i2 b1 j2 i j] i2 i j l1 by simp
    have c3: "b3 ! i ! j = (if i = i1 \<and> j = j1 then b ! i1 ! j1 else b2 ! i ! j)"
      unfolding b3_def using cell_update_nth [of i1 b2 j1 i j] i1 i j l2 by simp
    have c4: "b4 ! i ! j = (if i = i2 \<and> j = j2 then b ! i2 ! j2 else b3 ! i ! j)"
      unfolding b4_def using cell_update_nth [of i2 b3 j2 i j] i2 i j l3 by simp
    show "b4 ! i ! j = b ! i ! j"
      by (auto simp: c1 c2 c3 c4)
  qed
qed


lemma GameState_eqI:
  assumes "board s' = board s" "whiteToMove s' = whiteToMove s" "moveLog s' = moveLog s"
    "whiteKingLocation s' = whiteKingLocation s" "blackKingLocation s' = blackKingLocation s"
    "inCheck s' = inCheck s" "checks s' = checks s" "pins s' = pins s"
  shows "s' = (s :: GameState)"
  using assms by (cases s, cases s') simp

lemma makeMove_undoMove:
  assumes mi: "Move_init sq e (board s) = Some m"
    and wk: "pieceMoved m = ''wK'' \<Longrightarrow> (startRow m, startCol m) = whiteKingLocation s"
    and bk: "pieceMoved m = ''bK'' \<Longrightarrow> (startRow m, startCol m) = blackKingLocation s"
  shows "\<exists>s2. makeMove s m = Some s2 \<and> undoMove s2 = Some s"
proof -
  let ?b = "board s"
  from mi obtain i1 j1 i2 j2 where
    p1: "py_index (length ?b) (startRow m) = Some i1" "py_index (length (?b ! i1)) (startCol m) = Some j1"
    and p2: "py_index (length ?b) (endRow m) = Some i2" "py_index (length (?b ! i2)) (endCol m) = Some j2"
    and pm: "pieceMoved m = ?b ! i1 ! j1" and pc: "pieceCaptured m = ?b ! i2 ! j2"
    by (auto simp: Move_init_def bind_eq_Some_conv board_get_Some_iff)
  from p1 p2 have r: "i1 < length ?b" "j1 < length (?b ! i1)" "i2 < length ?b" "j2 < length (?b ! i2)"
    by (auto dest: py_index_less)
  define b1 where "b1 = ?b[i1 := (?b ! i1)[j1 := ''--'']]"
  define b2 where "b2 = b1[i2 := (b1 ! i2)[j2 := ?b ! i1 ! j1]]"
  define b3 where "b3 = b2[i1 := (b2 ! i1)[j1 := ?b ! i1 ! j1]]"
  define b4 where "b4 = b3[i2 := (b3 ! i2)[j2 := ?b ! i2 ! j2]]"
  have l1: "length b1 = length ?b" "\<And>i. length (b1 ! i) = length (?b ! i)"
    using r by (simp_all add: b1_def nth_list_update)
  have l2: "length b2 = length ?b" "\<And>i. length (b2 ! i) = length (?b ! i)"
    using r l1 by (simp_all add: b2_def nth_list_update)
  have l3: "length b3 = length ?b" "\<And>i. length (b3 ! i) = length (?b ! i)"
    using r l2 by (simp_all add: b3_def nth_list_update)
  have s1: "board_set ?b (startRow m) (startCol m) ''--'' = Some b1"
    using p1 by (simp add: board_set_Some_iff b1_def)
  have s2: "board_set b1 (endRow m) (endCol m) (pieceMoved m) = Some b2"
    using p2 l1 by (simp add: board_set_Some_iff b2_def pm)
  have s3: "board_set b2 (startRow m) (startCol m) (pieceMoved m) = Some b3"
    using p1 l2 by (simp add: board_set_Some_iff b3_def pm)
  have s4: "board_set b3 (endRow m) (endCol m) (pieceCaptured m) = Some b4"
    using p2 l3 by (simp add: board_set_Some_iff b4_def pc)
  have b4: "b4 = ?b"
    unfolding b4_def b3_def b2_def b1_def by (rule board_round_trip [OF r])
  define s2 where "s2 = (let s1 = s \<lparr> board := b2, moveLog := moveLog s @ [m],
                                       whiteToMove := \<not> whiteToMove s \<rparr>
     in if pieceMoved m = ''wK'' then s1 \<lparr> whiteKingLocation := (endRow m, endCol m) \<rparr>
        else if pieceMoved m = ''bK'' then s1 \<lparr> blackKingLocation := (endRow m, endCol m) \<rparr>
        else s1)"
  have mk: "makeMove s m = Some s2"
    by (simp add: makeMove_def s1 s2 s2_def Let_def)
  have f: "board s2 = b2" "moveLog s2 = moveLog s @ [m]" "whiteToMove s2 = (\<not> whiteToMove s)"
    "inCheck s2 = inCheck s" "checks s2 = checks s" "pins s2 = pins s"
    by (simp_all add: s2_def Let_def)
  have kw: "pieceMoved m \<noteq> ''wK'' \<Longrightarrow> whiteKingLocation s2 = whiteKingLocation s"
    and kb: "pieceMoved m \<noteq> ''bK'' \<Longrightarrow> blackKingLocation s2 = blackKingLocation s"
    by (simp_all add: s2_def Let_def)
  obtain s3 where un: "undoMove s2 = Some s3" and
    s3: "s3 = (let s1 = s2 \<lparr> board := b4, moveLog := moveLog s,
                              whiteToMove := whiteToMove s \<rparr>
     in if pieceMoved m = ''wK'' then s1 \<lparr> whiteKingLocation := (startRow m, startCol m) \<rparr>
        else if pieceMoved m = ''bK'' then s1 \<lparr> blackKingLocation := (startRow m, startCol m) \<rparr>
        else s1)"
    by (simp add: undoMove_def f s3 s4 Let_def)
  have "s3 = s"
  proof (rule GameState_eqI)
    show "board s3 = board s" by (simp add: s3 Let_def b4)
    show "whiteToMove s3 = whiteToMove s" by (simp add: s3 Let_def)
    show "moveLog s3 = moveLog s" by (simp add: s3 Let_def)
    show "whiteKingLocation s3 = whiteKingLocation s"
      using wk kw by (cases "pieceMoved m = ''wK''") (simp_all add: s3 Let_def)
    show "blackKingLocation s3 = blackKingLocation s"
      using bk kb by (cases "pieceMoved m = ''bK''") (simp_all add: s3 Let_def)
    show "inCheck s3 = inCheck s" by (simp add: s3 Let_def f)
    show "checks s3 = checks s" by (simp add: s3 Let_def f)
    show "pins s3 = pins s" by (simp add: s3 Let_def f)
  qed
  with mk un show ?thesis by simp
qed

lemma squares_of_iff:
  "(x, y) \<in> set (squares_of b p) \<longleftrightarrow>
     (\<exists>i j. x = int i \<and> y = int j \<and> i < length b \<and> j < length (b ! i) \<and> b ! i ! j = p)"
  by (auto simp: squares_of_def)

lemma king_cache_ok_nth:
  "king_cache_ok s \<longleftrightarrow>
     (0 \<le> fst (whiteKingLocation s) \<and> 0 \<le> snd (whiteKingLocation s) \<and>
      0 \<le> fst (blackKingLocation s) \<and> 0 \<le> snd (blackKingLocation s) \<and>
      (\<forall>i < length (board s). \<forall>j < length (board s ! i).
         length (board s ! i ! j) = 2 \<and>
         (board s ! i ! j = ''wK'' \<longrightarrow> whiteKingLocation s = (int i, int j)) \<and>
         (board s ! i ! j = ''bK'' \<longrightarrow> blackKingLocation s = (int i, int j))))"
  (is "?L \<longleftrightarrow> ?R")
proof
  assume l: ?L
  show ?R
  proof (intro conjI allI impI)
    fix i j assume i: "i < length (board s)" and j: "j < length (board s ! i)"
    then have "board s ! i \<in> set (board s)" "board s ! i ! j \<in> set (board s ! i)" by simp_all
    with l show "length (board s ! i ! j) = 2" unfolding king_cache_ok_def by blast
    {
      assume "board s ! i ! j = ''wK''"
      with i j have "(int i, int j) \<in> set (squares_of (board s) ''wK'')"
        unfolding squares_of_iff by blast
      with l show "whiteKingLocation s = (int i, int j)" by (auto simp: king_cache_ok_def)
    }
    {
      assume "board s ! i ! j = ''bK''"
      with i j have "(int i, int j) \<in> set (squares_of (board s) ''bK'')"
        unfolding squares_of_iff by blast
      with l show "blackKingLocation s = (int i, int j)" by (auto simp: king_cache_ok_def)
    }
  qed (use l in \<open>simp_all add: king_cache_ok_def\<close>)
next
  assume r: ?R
  have "\<forall>row \<in> set (board s). \<forall>cell \<in> set row. length cell = 2"
  proof (intro ballI)
    fix row cell assume "row \<in> set (board s)" "cell \<in> set row"
    then obtain i j where "i < length (board s)" "row = board s ! i" "j < length row" "cell = row ! j"
      by (auto simp: in_set_conv_nth)
    with r show "length cell = 2" by blast
  qed
  moreover have "set (squares_of (board s) ''wK'') \<subseteq> {whiteKingLocation s}"
    using r by (auto simp: squares_of_iff)
  moreover have "set (squares_of (board s) ''bK'') \<subseteq> {blackKingLocation s}"
    using r by (auto simp: squares_of_iff)
  ultimately show ?L using r by (simp add: king_cache_ok_def)
qed

lemma board_get_nonneg:
  assumes "board_get b r c = Some p" "0 \<le> r" "0 \<le> c"
  shows "nat r < length b \<and> nat c < length (b ! nat r) \<and> p = b ! nat r ! nat c"
  using assms by (auto simp: board_get_Some_iff py_index_def split: if_splits)

lemma king_at_cache:
  assumes "king_cache_ok s" "board_get (board s) r c = Some p" "0 \<le> r" "0 \<le> c"
  shows "(p = ''wK'' \<longrightarrow> whiteKingLocation s = (r, c)) \<and>
         (p = ''bK'' \<longrightarrow> blackKingLocation s = (r, c))"
proof -
  from board_get_nonneg [OF assms(2,3,4)]
  have i: "nat r < length (board s)" and j: "nat c < length (board s ! nat r)"
    and p: "p = board s ! nat r ! nat c" by auto
  from assms(1) i j have
    "(board s ! nat r ! nat c = ''wK'' \<longrightarrow> whiteKingLocation s = (int (nat r), int (nat c))) \<and>
     (board s ! nat r ! nat c = ''bK'' \<longrightarrow> blackKingLocation s = (int (nat r), int (nat c)))"
    unfolding king_cache_ok_nth by blast
  with p assms(3,4) show ?thesis by simp
qed

lemma king_cache_ok_query:
  "king_cache_ok (s \<lparr> inCheck := a, pins := b, checks := c \<rparr>) = king_cache_ok s"
  "king_cache_ok (s \<lparr> pins := b \<rparr>) = king_cache_ok s"
  by (simp_all add: king_cache_ok_def)

lemma king_step_ends:
  assumes "king_step a r c i (moves, s) = Some (ms, s')"
  shows "set ms \<subseteq> set moves \<union>
           {m. from_square (board s) (r, c) m \<and> 0 \<le> endRow m \<and> 0 \<le> endCol m}"
proof -
  have ap: "append_move (board s) (r, c) (er, ec) moves = Some ms \<Longrightarrow> on_board er ec \<Longrightarrow>
        set ms \<subseteq> set moves \<union>
           {m. from_square (board s) (r, c) m \<and> 0 \<le> endRow m \<and> 0 \<le> endCol m}" for er ec
  proof -
    assume a: "append_move (board s) (r, c) (er, ec) moves = Some ms" and o: "on_board er ec"
    from a obtain m where m: "Move_init (r, c) (er, ec) (board s) = Some m" "ms = moves @ [m]"
      by (auto simp: append_move_def bind_eq_Some_conv)
    from Move_init_fields(3,4) [OF m(1)] o have "0 \<le> endRow m \<and> 0 \<le> endCol m"
      by (simp add: on_board_def)
    moreover from m(1) have "from_square (board s) (r, c) m"
      unfolding from_square_def by blast
    ultimately show ?thesis using m(2) by auto
  qed
  from assms show ?thesis
    by (auto simp: king_step_def Let_def bind_eq_Some_conv set_king_board split: if_splits
             dest!: ap)
qed

lemma getKingMoves_ends:
  assumes "getKingMoves s r c moves = Some (ms, s')"
  shows "set ms \<subseteq> set moves \<union>
           {m. from_square (board s) (r, c) m \<and> 0 \<le> endRow m \<and> 0 \<le> endCol m}"
proof -
  let ?N = "{m. from_square (board s) (r, c) m \<and> 0 \<le> endRow m \<and> 0 \<le> endCol m}"
  have "(\<lambda>st. board (snd st) = board s \<and> set (fst st) \<subseteq> set moves \<union> ?N) (ms, s')"
  proof (rule for_each_inv [OF assms [unfolded getKingMoves_def]])
    show "board (snd (moves, s)) = board s \<and> set (fst (moves, s)) \<subseteq> set moves \<union> ?N" by simp
  next
    fix x a a'
    assume p: "board (snd a) = board s \<and> set (fst a) \<subseteq> set moves \<union> ?N"
      and st: "king_step (allyColor_of s) r c x a = Some a'"
    obtain m1 s1 where a: "a = (m1, s1)" by (cases a)
    obtain m2 s2 where a': "a' = (m2, s2)" by (cases a')
    from king_step_state [OF st [unfolded a a']] have "board s2 = board s1"
      by (auto simp: set_king_board)
    moreover from king_step_ends [OF st [unfolded a a']] p a
    have "set m2 \<subseteq> set moves \<union> ?N" by auto
    ultimately show "board (snd a') = board s \<and> set (fst a') \<subseteq> set moves \<union> ?N"
      using p a a' by simp
  qed
  then show ?thesis by simp
qed

lemma getKingMoves_own_square:
  assumes "kingLocation s = (r, c)" and "getKingMoves s r c moves = Some (ms, s')"
  shows "s' = s"
  using getKingMoves_state [OF assms(2)] assms(1) set_king_own [of s] by auto

lemma king_cell:
  assumes "length sq = 2" "getitem sq 0 = Some t" "getitem sq 1 = Some k"
  shows "sq = [t, k]"
proof -
  from assms(1) obtain x y where "sq = [x, y]"
    by (cases sq; cases "tl sq") auto
  with assms(2,3) show ?thesis by (simp add: getitem_def py_index_def)
qed

lemma generator_from_state:
  assumes "moveFunction piece = Some gen" "piece \<noteq> CHR ''K''"
    and g: "gen s r c moves = Some (ms, s')"
  shows "s' = s \<lparr> pins := pins s' \<rparr> \<and>
         set ms \<subseteq> set moves \<union> Collect (from_square (board s) (r, c))"
proof -
  from assms(1,2) consider "gen = getPawnMoves" | "gen = getRookMoves" | "gen = getKnightMoves"
    | "gen = getBishopMoves" | "gen = getQueenMoves"
    by (auto simp: moveFunction_def dict_of_def split: if_splits)
  then show ?thesis
  proof cases
    case 1 with g getPawnMoves_state [of s r c moves ms s'] getPawnMoves_from [of s r c moves ms s']
    show ?thesis by simp
  next
    case 2 with g getRookMoves_state [of s r c moves ms s'] getRookMoves_from [of s r c moves ms s']
    show ?thesis by simp
  next
    case 3 with g getKnightMoves_state [of s r c moves ms s'] getKnightMoves_from [of s r c moves ms s']
    show ?thesis by simp
  next
    case 4 with g getBishopMoves_state [of s r c moves ms s'] getBishopMoves_from [of s r c moves ms s']
    show ?thesis by simp
  next
    case 5 with g getQueenMoves_state [of s r c moves ms s'] getQueenMoves_from [of s r c moves ms s']
    show ?thesis by simp
  qed
qed

lemma moveFunction_king: "moveFunction CHR ''K'' = Some gen \<Longrightarrow> gen = getKingMoves"
  by (simp add: moveFunction_def dict_of_def)

lemma from_square_sound:
  assumes "from_square b (r, c) m" "0 \<le> r" "0 \<le> c"
    and "pieceMoved m = ''wK'' \<or> pieceMoved m = ''bK'' \<Longrightarrow> 0 \<le> endRow m \<and> 0 \<le> endCol m"
  shows "sound_move b m"
proof -
  from assms(1) obtain e where "Move_init (r, c) e b = Some m"
    unfolding from_square_def by blast
  with assms(2,3) have "\<exists>sq e. 0 \<le> fst sq \<and> 0 \<le> snd sq \<and> Move_init sq e b = Some m"
    by (intro exI [of _ "(r, c)"] exI [of _ e]) simp
  with assms(4) show ?thesis unfolding sound_move_def by blast
qed

lemma from_square_piece:
  assumes "from_square b (r, c) m" "board_get b r c = Some sq"
  shows "pieceMoved m = sq"
proof -
  from assms(1) obtain e where "Move_init (r, c) e b = Some m"
    unfolding from_square_def by blast
  from Move_init_fields(5) [OF this] assms(2) show ?thesis by simp
qed

lemma square_moves_ok:
  assumes inv: "king_cache_ok s" and rc: "0 \<le> r" "0 \<le> c"
    and sm: "square_moves r c (moves, s) = Some (ms, s')"
    and old: "\<forall>m \<in> set moves. sound_move (board s) m"
  shows "s' = s \<lparr> pins := pins s' \<rparr> \<and> (\<forall>m \<in> set ms. sound_move (board s) m)"
proof -
  from sm obtain sq turn where sq: "board_get (board s) r c = Some sq"
    and turn: "getitem sq 0 = Some turn"
    and alt: "((turn = CHR ''w'' \<and> whiteToMove s) \<or> (turn = CHR ''b'' \<and> \<not> whiteToMove s)) \<and>
              (\<exists>piece gen. getitem sq 1 = Some piece \<and> moveFunction piece = Some gen \<and>
                           gen s r c moves = Some (ms, s')) \<or>
              ms = moves \<and> s' = s"
    by (auto simp: square_moves_def bind_eq_Some_conv split: if_splits)
  from alt show ?thesis
  proof (rule disjE)
    assume "ms = moves \<and> s' = s"
    with old show ?thesis by simp
  next
    assume own: "((turn = CHR ''w'' \<and> whiteToMove s) \<or> (turn = CHR ''b'' \<and> \<not> whiteToMove s)) \<and>
              (\<exists>piece gen. getitem sq 1 = Some piece \<and> moveFunction piece = Some gen \<and>
                           gen s r c moves = Some (ms, s'))"
    then obtain piece gen where piece: "getitem sq 1 = Some piece"
      and mf: "moveFunction piece = Some gen" and g: "gen s r c moves = Some (ms, s')"
      by blast
    from own have t: "(turn = CHR ''w'' \<and> whiteToMove s) \<or> (turn = CHR ''b'' \<and> \<not> whiteToMove s)"
      by blast
    from board_get_nonneg [OF sq rc] inv have len: "length sq = 2"
      unfolding king_cache_ok_nth by blast
    show ?thesis
    proof (cases "piece = CHR ''K''")
      case True
      from king_cell [OF len turn piece] True have cell: "sq = [turn, CHR ''K'']" by simp
      from t cell king_at_cache [OF inv sq rc] have "kingLocation s = (r, c)"
        by (auto simp: kingLocation_def)
      moreover from mf True have gk: "gen = getKingMoves" by (simp add: moveFunction_king)
      ultimately have same: "s' = s" using g getKingMoves_own_square by blast
      have "\<forall>m \<in> set ms. sound_move (board s) m"
      proof
        fix m assume "m \<in> set ms"
        with getKingMoves_ends [OF g [unfolded gk]]
        have "m \<in> set moves \<or> (from_square (board s) (r, c) m \<and> 0 \<le> endRow m \<and> 0 \<le> endCol m)"
          by auto
        then show "sound_move (board s) m"
          using old rc by (auto intro: from_square_sound)
      qed
      with same show ?thesis by simp
    next
      case False
      from generator_from_state [OF mf False g]
      have st: "s' = s \<lparr> pins := pins s' \<rparr>"
        and fr: "set ms \<subseteq> set moves \<union> Collect (from_square (board s) (r, c))" by blast+
      have "\<forall>m \<in> set ms. sound_move (board s) m"
      proof
        fix m assume "m \<in> set ms"
        with fr have "m \<in> set moves \<or> from_square (board s) (r, c) m" by auto
        then show "sound_move (board s) m"
        proof
          assume "m \<in> set moves" with old show ?thesis by blast
        next
          assume f: "from_square (board s) (r, c) m"
          from from_square_piece [OF f sq] have pm: "pieceMoved m = sq" .
          have "sq \<noteq> ''wK''" "sq \<noteq> ''bK''"
            using piece False by (auto simp: getitem_def py_index_def)
          with pm have "\<not> (pieceMoved m = ''wK'' \<or> pieceMoved m = ''bK'')" by simp
          with from_square_sound [OF f rc] show ?thesis by blast
        qed
      qed
      with st show ?thesis by simp
    qed
  qed
qed

lemma pins_update_trans: "s1 = s \<lparr> pins := p \<rparr> \<Longrightarrow> s2 = s1 \<lparr> pins := q \<rparr> \<Longrightarrow> s2 = s \<lparr> pins := q \<rparr>"
  by simp

lemma king_cache_ok_pins: "s1 = s \<lparr> pins := p \<rparr> \<Longrightarrow> king_cache_ok s1 = king_cache_ok s"
  by (simp add: king_cache_ok_def)

lemma row_moves_ok:
  assumes inv: "king_cache_ok s" and r: "0 \<le> r"
    and rm: "row_moves r (moves, s) = Some (ms, s')"
    and old: "\<forall>m \<in> set moves. sound_move (board s) m"
  shows "s' = s \<lparr> pins := pins s' \<rparr> \<and> (\<forall>m \<in> set ms. sound_move (board s) m)"
proof -
  from rm obtain row :: "string list" where
    f: "for_each (square_moves r) [0 .. int (length row) - 1] (moves, s) = Some (ms, s')"
    by (auto simp: row_moves_def bind_eq_Some_conv)
  have "(\<lambda>st. snd st = s \<lparr> pins := pins (snd st) \<rparr> \<and>
              (\<forall>m \<in> set (fst st). sound_move (board s) m)) (ms, s')"
  proof (rule for_each_inv [OF f])
    show "snd (moves, s) = s \<lparr> pins := pins (snd (moves, s)) \<rparr> \<and>
          (\<forall>m \<in> set (fst (moves, s)). sound_move (board s) m)"
      using old by simp
  next
    fix x a a'
    assume x: "x \<in> set [0 .. int (length row) - 1]"
      and p: "snd a = s \<lparr> pins := pins (snd a) \<rparr> \<and> (\<forall>m \<in> set (fst a). sound_move (board s) m)"
      and st: "square_moves r x a = Some a'"
    obtain m1 s1 where a: "a = (m1, s1)" by (cases a)
    obtain m2 s2 where a': "a' = (m2, s2)" by (cases a')
    from p a have s1: "s1 = s \<lparr> pins := pins s1 \<rparr>" by simp
    then have b1: "board s1 = board s" by (rule pins_update_board [THEN conjunct1])
    from king_cache_ok_pins [OF s1] inv have i1: "king_cache_ok s1" by simp
    from x have x0: "0 \<le> x" by simp
    from p a b1 have o1: "\<forall>m \<in> set m1. sound_move (board s1) m" by simp
    from square_moves_ok [OF i1 r x0 st [unfolded a a'] o1]
    have s2: "s2 = s1 \<lparr> pins := pins s2 \<rparr>" and o2: "\<forall>m \<in> set m2. sound_move (board s1) m"
      by blast+
    from pins_update_trans [OF s1 s2] o2 b1
    have "s2 = s \<lparr> pins := pins s2 \<rparr> \<and> (\<forall>m \<in> set m2. sound_move (board s) m)" by simp
    with a' show "snd a' = s \<lparr> pins := pins (snd a') \<rparr> \<and>
                  (\<forall>m \<in> set (fst a'). sound_move (board s) m)" by simp
  qed
  then show ?thesis by simp
qed


lemma getAllPossibleMoves_ok:
  assumes inv: "king_cache_ok s" and ga: "getAllPossibleMoves s = Some (ms, s')"
  shows "s' = s \<lparr> pins := pins s' \<rparr> \<and> (\<forall>m \<in> set ms. sound_move (board s) m)"
proof -
  have "(\<lambda>st. snd st = s \<lparr> pins := pins (snd st) \<rparr> \<and>
              (\<forall>m \<in> set (fst st). sound_move (board s) m)) (ms, s')"
  proof (rule for_each_inv [OF ga [unfolded getAllPossibleMoves_def]])
    show "snd ([], s) = s \<lparr> pins := pins (snd ([], s)) \<rparr> \<and>
          (\<forall>m \<in> set (fst ([], s)). sound_move (board s) m)"
      by simp
  next
    fix x a a'
    assume x: "x \<in> set [0 .. int (length (board s)) - 1]"
      and p: "snd a = s \<lparr> pins := pins (snd a) \<rparr> \<and> (\<forall>m \<in> set (fst a). sound_move (board s) m)"
      and st: "row_moves x a = Some a'"
    obtain m1 s1 where a: "a = (m1, s1)" by (cases a)
    obtain m2 s2 where a': "a' = (m2, s2)" by (cases a')
    from p a have s1: "s1 = s \<lparr> pins := pins s1 \<rparr>" by simp
    then have b1: "board s1 = board s" by (rule pins_update_board [THEN conjunct1])
    from king_cache_ok_pins [OF s1] inv have i1: "king_cache_ok s1" by simp
    from x have x0: "0 \<le> x" by simp
    from p a b1 have o1: "\<forall>m \<in> set m1. sound_move (board s1) m" by simp
    from row_moves_ok [OF i1 x0 st [unfolded a a'] o1]
    have s2: "s2 = s1 \<lparr> pins := pins s2 \<rparr>" and o2: "\<forall>m \<in> set m2. sound_move (board s1) m"
      by blast+
    from pins_update_trans [OF s1 s2] o2 b1
    have "s2 = s \<lparr> pins := pins s2 \<rparr> \<and> (\<forall>m \<in> set m2. sound_move (board s) m)" by simp
    with a' show "snd a' = s \<lparr> pins := pins (snd a') \<rparr> \<and>
                  (\<forall>m \<in> set (fst a'). sound_move (board s) m)" by simp
  qed
  then show ?thesis by simp
qed

lemma list_remove_subset: "list_remove xs x = Some ys \<Longrightarrow> set ys \<subseteq> set xs"
  by (induction xs arbitrary: ys) (auto simp: bind_eq_Some_conv split: if_splits)

lemma remove_loop_subset: "remove_loop vs is moves = Some ms \<Longrightarrow> set ms \<subseteq> set moves"
proof (induction "is" arbitrary: moves)
  case Nil
  then show ?case by simp
next
  case (Cons i rest)
  from Cons.prems obtain moves' where
    "remove_loop vs rest moves' = Some ms" "set moves' \<subseteq> set moves"
    by (auto simp: bind_eq_Some_conv split: if_splits dest: list_remove_subset)
  with Cons.IH [of moves'] show ?case by blast
qed

lemma query_state:
  "s1 = (s \<lparr> inCheck := a, pins := b, checks := c \<rparr>) \<lparr> pins := q \<rparr> \<Longrightarrow>
   s1 = s \<lparr> inCheck := inCheck s1, pins := pins s1, checks := checks s1 \<rparr>"
  by simp

lemma kingLocation_nonneg:
  "king_cache_ok s \<Longrightarrow> 0 \<le> fst (kingLocation s) \<and> 0 \<le> snd (kingLocation s)"
  by (simp add: king_cache_ok_def kingLocation_def)

lemma getValidMoves_ok:
  assumes inv: "king_cache_ok s" and vm: "getValidMoves s = Some (ms, s1)"
  shows "s1 = s \<lparr> inCheck := inCheck s1, pins := pins s1, checks := checks s1 \<rparr> \<and>
         (\<forall>m \<in> set ms. sound_move (board s) m)"
proof -
  from vm obtain ic ps cs where det: "checksForPinsAndChecks s = Some (ic, ps, cs)"
    by (auto simp: getValidMoves_def bind_eq_Some_conv)
  define s' where "s' = s \<lparr> inCheck := ic, pins := ps, checks := cs \<rparr>"
  have b': "board s' = board s" by (simp add: s'_def)
  have i': "king_cache_ok s'" using inv by (simp add: s'_def king_cache_ok_query)
  have k': "kingLocation s' = kingLocation s" by (simp add: s'_def)
  from vm det have alt:
    "(\<exists>moves. getAllPossibleMoves s' = Some (moves, s1) \<and> set ms \<subseteq> set moves) \<or>
     getKingMoves s' (fst (kingLocation s)) (snd (kingLocation s)) [] = Some (ms, s1)"
    by (auto simp: getValidMoves_def Let_def s'_def bind_eq_Some_conv
             split: prod.splits if_splits dest: remove_loop_subset)
  then show ?thesis
  proof (rule disjE)
    assume "\<exists>moves. getAllPossibleMoves s' = Some (moves, s1) \<and> set ms \<subseteq> set moves"
    then obtain moves where ga: "getAllPossibleMoves s' = Some (moves, s1)"
      and sub: "set ms \<subseteq> set moves" by blast
    from getAllPossibleMoves_ok [OF i' ga]
    have s1: "s1 = s' \<lparr> pins := pins s1 \<rparr>" and o: "\<forall>m \<in> set moves. sound_move (board s') m"
      by blast+
    from query_state [OF s1 [unfolded s'_def]] o sub b' show ?thesis by auto
  next
    assume g: "getKingMoves s' (fst (kingLocation s)) (snd (kingLocation s)) [] = Some (ms, s1)"
    from k' have "kingLocation s' = (fst (kingLocation s), snd (kingLocation s))" by simp
    from getKingMoves_own_square [OF this g] have s1: "s1 = s'" .
    then have "s1 = s' \<lparr> pins := pins s1 \<rparr>" by simp
    from query_state [OF this [unfolded s'_def]]
    have st: "s1 = s \<lparr> inCheck := inCheck s1, pins := pins s1, checks := checks s1 \<rparr>" .
    from kingLocation_nonneg [OF inv]
    have n: "0 \<le> fst (kingLocation s)" "0 \<le> snd (kingLocation s)" by simp_all
    have "\<forall>m \<in> set ms. sound_move (board s) m"
    proof
      fix m assume "m \<in> set ms"
      with getKingMoves_ends [OF g] b'
      have "from_square (board s) (fst (kingLocation s), snd (kingLocation s)) m \<and>
            0 \<le> endRow m \<and> 0 \<le> endCol m" by auto
      with n from_square_sound [of "board s" "fst (kingLocation s)" "snd (kingLocation s)" m]
      show "sound_move (board s) m" by blast
    qed
    with st show ?thesis by blast
  qed
qed

lemma py_index_nonneg: "py_index n r = Some i \<Longrightarrow> 0 \<le> r \<Longrightarrow> int i = r"
  by (auto simp: py_index_def split: if_splits)

lemma makeMove_preserves:
  assumes inv: "king_cache_ok s" and sm: "sound_move (board s) m"
    and mk: "makeMove s m = Some s2"
  shows "king_cache_ok s2"
proof -
  let ?b = "board s"
  let ?pm = "pieceMoved m"
  from sm obtain sq e where sq: "0 \<le> fst sq" "0 \<le> snd sq"
    and mi: "Move_init sq e ?b = Some m"
    and kend: "?pm = ''wK'' \<or> ?pm = ''bK'' \<Longrightarrow> 0 \<le> endRow m \<and> 0 \<le> endCol m"
    unfolding sound_move_def by blast
  from mi obtain i1 j1 i2 j2 where
    p1: "py_index (length ?b) (startRow m) = Some i1" "py_index (length (?b ! i1)) (startCol m) = Some j1"
    and p2: "py_index (length ?b) (endRow m) = Some i2" "py_index (length (?b ! i2)) (endCol m) = Some j2"
    and pm: "?pm = ?b ! i1 ! j1"
    by (auto simp: Move_init_def bind_eq_Some_conv board_get_Some_iff)
  from p1 p2 have r: "i1 < length ?b" "j1 < length (?b ! i1)" "i2 < length ?b" "j2 < length (?b ! i2)"
    by (auto dest: py_index_less)
  from Move_init_fields(1,2) [OF mi] sq have "0 \<le> startRow m" "0 \<le> startCol m" by simp_all
  with p1 have st: "(startRow m, startCol m) = (int i1, int j1)"
    by (simp add: py_index_nonneg)
  have en: "?pm = ''wK'' \<or> ?pm = ''bK'' \<Longrightarrow> (endRow m, endCol m) = (int i2, int j2)"
    using kend p2 by (simp add: py_index_nonneg)
  define b1 where "b1 = ?b[i1 := (?b ! i1)[j1 := ''--'']]"
  define b2 where "b2 = b1[i2 := (b1 ! i2)[j2 := ?pm]]"
  have l1: "length b1 = length ?b" "\<And>i. length (b1 ! i) = length (?b ! i)"
    using r by (simp_all add: b1_def nth_list_update)
  have l2: "length b2 = length ?b" "\<And>i. length (b2 ! i) = length (?b ! i)"
    using r l1 by (simp_all add: b2_def nth_list_update)
  have s1: "board_set ?b (startRow m) (startCol m) ''--'' = Some b1"
    using p1 by (simp add: board_set_Some_iff b1_def)
  have s2: "board_set b1 (endRow m) (endCol m) ?pm = Some b2"
    using p2 l1 by (simp add: board_set_Some_iff b2_def)
  from mk have bs: "board s2 = b2"
    and W: "whiteKingLocation s2 = (if ?pm = ''wK'' then (endRow m, endCol m) else whiteKingLocation s)"
    and B: "blackKingLocation s2 = (if ?pm = ''bK'' then (endRow m, endCol m) else blackKingLocation s)"
    by (auto simp: makeMove_def s1 s2 Let_def)
  have cell: "b2 ! i ! j = (if i = i2 \<and> j = j2 then ?pm
                            else if i = i1 \<and> j = j1 then ''--'' else ?b ! i ! j)"
    if "i < length ?b" "j < length (?b ! i)" for i j
  proof -
    have c1: "b1 ! i ! j = (if i = i1 \<and> j = j1 then ''--'' else ?b ! i ! j)"
      unfolding b1_def using cell_update_nth [OF r(1,2) that] .
    have c2: "b2 ! i ! j = (if i = i2 \<and> j = j2 then ?pm else b1 ! i ! j)"
      unfolding b2_def using cell_update_nth [of i2 b1 j2 i j] r that l1 by simp
    show ?thesis unfolding c2 c1 by simp
  qed
  from inv have old: "0 \<le> fst (whiteKingLocation s)" "0 \<le> snd (whiteKingLocation s)"
      "0 \<le> fst (blackKingLocation s)" "0 \<le> snd (blackKingLocation s)"
    and cells: "\<And>i j. i < length ?b \<Longrightarrow> j < length (?b ! i) \<Longrightarrow>
         length (?b ! i ! j) = 2 \<and>
         (?b ! i ! j = ''wK'' \<longrightarrow> whiteKingLocation s = (int i, int j)) \<and>
         (?b ! i ! j = ''bK'' \<longrightarrow> blackKingLocation s = (int i, int j))"
    unfolding king_cache_ok_nth by blast+
  from cells [OF r(1,2)] pm have pml: "length ?pm = 2"
    and pmw: "?pm = ''wK'' \<Longrightarrow> whiteKingLocation s = (int i1, int j1)"
    and pmb: "?pm = ''bK'' \<Longrightarrow> blackKingLocation s = (int i1, int j1)"
    by simp_all
  show ?thesis
    unfolding king_cache_ok_nth bs l2
  proof (intro conjI allI impI)
    show "0 \<le> fst (whiteKingLocation s2)" using W kend old by simp
    show "0 \<le> snd (whiteKingLocation s2)" using W kend old by simp
    show "0 \<le> fst (blackKingLocation s2)" using B kend old by simp
    show "0 \<le> snd (blackKingLocation s2)" using B kend old by simp
  next
    fix i j assume i: "i < length ?b" and j: "j < length (?b ! i)"
    from cells [OF i j] pml show "length (b2 ! i ! j) = 2"
      by (simp add: cell [OF i j])
  next
    fix i j assume i: "i < length ?b" and j: "j < length (?b ! i)"
      and k: "b2 ! i ! j = ''wK''"
    show "whiteKingLocation s2 = (int i, int j)"
    proof (cases "i = i2 \<and> j = j2")
      case True
      with k cell [OF i j] have "?pm = ''wK''" by simp
      with W en True show ?thesis by simp
    next
      case False
      with k cell [OF i j] have n1: "\<not> (i = i1 \<and> j = j1)" and o: "?b ! i ! j = ''wK''"
        by (auto split: if_splits)
      from cells [OF i j] o have w: "whiteKingLocation s = (int i, int j)" by simp
      have "?pm \<noteq> ''wK''"
      proof
        assume "?pm = ''wK''"
        from pmw [OF this] w n1 show False by simp
      qed
      with W w show ?thesis by simp
    qed
  next
    fix i j assume i: "i < length ?b" and j: "j < length (?b ! i)"
      and k: "b2 ! i ! j = ''bK''"
    show "blackKingLocation s2 = (int i, int j)"
    proof (cases "i = i2 \<and> j = j2")
      case True
      with k cell [OF i j] have "?pm = ''bK''" by simp
      with B en True show ?thesis by simp
    next
      case False
      with k cell [OF i j] have n1: "\<not> (i = i1 \<and> j = j1)" and o: "?b ! i ! j = ''bK''"
        by (auto split: if_splits)
      from cells [OF i j] o have w: "blackKingLocation s = (int i, int j)" by simp
      have "?pm \<noteq> ''bK''"
      proof
        assume "?pm = ''bK''"
        from pmb [OF this] w n1 show False by simp
      qed
      with B w show ?thesis by simp
    qed
  qed
qed

lemma king_cache_ok_init: "king_cache_ok GameState_init"
  by code_simp

lemma king_cache_ok_after_query:
  assumes "s1 = s \<lparr> inCheck := a, pins := b, checks := c \<rparr>"
  shows "king_cache_ok s1 = king_cache_ok s" "board s1 = board s"
  using assms by (simp_all add: king_cache_ok_def)

lemma reachable_king_cache_ok: "reachable s \<Longrightarrow> king_cache_ok s"
proof (induction rule: reachable.induct)
  case start
  show ?case by (rule king_cache_ok_init)
next
  case (query s moves s1)
  from getValidMoves_ok [OF query.IH query.hyps(2)]
  have "s1 = s \<lparr> inCheck := inCheck s1, pins := pins s1, checks := checks s1 \<rparr>" by blast
  from king_cache_ok_after_query(1) [OF this] query.IH show ?case by simp
next
  case (move s moves s1 m s2)
  from getValidMoves_ok [OF move.IH move.hyps(2)]
  have st: "s1 = s \<lparr> inCheck := inCheck s1, pins := pins s1, checks := checks s1 \<rparr>"
    and so: "\<forall>m \<in> set moves. sound_move (board s) m" by blast+
  from king_cache_ok_after_query [OF st] move.IH
  have i1: "king_cache_ok s1" and b1: "board s1 = board s" by simp_all
  from so move.hyps(3) b1 have "sound_move (board s1) m" by simp
  from makeMove_preserves [OF i1 this move.hyps(4)] show ?case .
qed

lemma round_trip_under_invariant:
  assumes inv: "king_cache_ok s" and "getValidMoves s = Some (ms, s1)" and "m \<in> set ms"
  shows "\<exists>s2. makeMove s1 m = Some s2 \<and> undoMove s2 = Some s1"
proof -
  from getValidMoves_ok [OF inv assms(2)]
  have st: "s1 = s \<lparr> inCheck := inCheck s1, pins := pins s1, checks := checks s1 \<rparr>"
    and so: "\<forall>m \<in> set ms. sound_move (board s) m" by blast+
  from king_cache_ok_after_query [OF st] inv
  have i1: "king_cache_ok s1" and b1: "board s1 = board s" by simp_all
  from so assms(3) b1 have "sound_move (board s1) m" by simp
  then obtain sq e where sq: "0 \<le> fst sq" "0 \<le> snd sq"
    and mi: "Move_init sq e (board s1) = Some m"
    unfolding sound_move_def by blast
  from Move_init_fields [OF mi]
  have f: "startRow m = fst sq" "startCol m = snd sq"
    "board_get (board s1) (fst sq) (snd sq) = Some (pieceMoved m)" by simp_all
  from king_at_cache [OF i1 f(3) sq] f(1,2)
  have wk: "pieceMoved m = ''wK'' \<Longrightarrow> (startRow m, startCol m) = whiteKingLocation s1"
    and bk: "pieceMoved m = ''bK'' \<Longrightarrow> (startRow m, startCol m) = blackKingLocation s1"
    by simp_all
  from makeMove_undoMove [OF mi wk bk] show ?thesis .
qed

text \<open>
  Claim C5. In every state \<open>s\<close> of a game (the initial state, or a state reached from it by
  getValidMoves and by makeMove of moves that getValidMoves returned), for every move \<open>m\<close>
  that getValidMoves returns, leaving the state \<open>s1\<close>: makeMove of \<open>m\<close> succeeds, undoMove
  after it succeeds, and the state after undoMove is \<open>s1\<close> again, so the board, whiteToMove,
  both king caches and the length of moveLog have the values they had before makeMove.
\<close>

theorem makeMove_undoMove_round_trip:
  assumes "reachable s" and "getValidMoves s = Some (ms, s1)" and "m \<in> set ms"
  shows "\<exists>s2 s3. makeMove s1 m = Some s2 \<and> undoMove s2 = Some s3 \<and>
           board s3 = board s1 \<and> whiteToMove s3 = whiteToMove s1 \<and>
           whiteKingLocation s3 = whiteKingLocation s1 \<and>
           blackKingLocation s3 = blackKingLocation s1 \<and>
           length (moveLog s3) = length (moveLog s1) \<and> s3 = s1"
proof -
  from reachable_king_cache_ok [OF assms(1)] have "king_cache_ok s" .
  from round_trip_under_invariant [OF this assms(2,3)]
  obtain s2 where "makeMove s1 m = Some s2" "undoMove s2 = Some s1" by blast
  then show ?thesis by simp
qed

theorem makeMove_undoMove_round_trip_witness:
  "map_option (\<lambda>(ms, s1). pawn_e4 \<in> set ms) (getValidMoves GameState_init) = Some True \<and>
   (\<exists>ms s1 s2. getValidMoves GameState_init = Some (ms, s1) \<and> makeMove s1 pawn_e4 = Some s2 \<and>
                undoMove s2 = Some s1)"
proof -
  have l: "map_option (\<lambda>(ms, s1). pawn_e4 \<in> set ms) (getValidMoves GameState_init) = Some True"
    by code_simp
  then obtain ms s1 where v: "getValidMoves GameState_init = Some (ms, s1)"
    and m: "pawn_e4 \<in> set ms"
    by (cases "getValidMoves GameState_init") auto
  from makeMove_undoMove_round_trip [OF reachable.start v m]
  obtain s2 where "makeMove s1 pawn_e4 = Some s2" "undoMove s2 = Some s1" by blast
  with l v show ?thesis by blast
qed

end
